theory Spec2Isabelle
  imports Main "HOL-Library.Word"
begin

section \<open>The policy-based Vector of src/11.cpp\<close>

text \<open>
  The class template \<^verbatim>\<open>Vector<T, AllocPolicy, ThreadPolicy, DebugPolicy>\<close> keeps a raw
  buffer \<^verbatim>\<open>data_\<close>, two \<^verbatim>\<open>size_t\<close> counters and a policy mutex. The embedding below keeps
  the objects and the buffers in an explicit store, because the code compares object
  addresses (\<^verbatim>\<open>this != &other\<close>), hands buffers from one object to another, and
  constructs and destructs elements in place.

  \<^item> \<^verbatim>\<open>size_t\<close> is a 64-bit word; \<^verbatim>\<open>capacity_ * 2\<close> and \<^verbatim>\<open>++size_\<close> wrap. The
    counter \<^verbatim>\<open>i\<close> of the loops \<^verbatim>\<open>for (size_t i = 0; i < size_; ++i)\<close> stays below
    \<^verbatim>\<open>size_\<close> and is a natural number.
  \<^item> A buffer is a list of slots; a slot is \<open>None\<close> while it is raw storage and
    \<open>Some x\<close> while it holds a constructed element. The allocator is modelled at
    element granularity: \<^verbatim>\<open>allocate(n)\<close> yields \<open>n\<close> slots.
  \<^item> The system can supply \<open>avail\<close> more slots; a request beyond that is the
    allocation failure. \<^verbatim>\<open>std::malloc\<close> then returns the null pointer,
    \<^verbatim>\<open>new T[n]\<close> throws \<^verbatim>\<open>std::bad_alloc\<close>. A buffer gets an address that no
    buffer had before. The elements that \<^verbatim>\<open>new T[n]\<close> default-initialises are raw
    slots too: for the element types of the tests, \<^verbatim>\<open>int\<close> and \<^verbatim>\<open>double\<close>, their
    value is indeterminate.
  \<^item> Whatever C++ leaves undefined (a null or dangling pointer dereferenced, a slot
    outside the buffer, a raw slot read or destructed, a mutex unlocked that is not
    held) is the outcome \<open>Undefined\<close>.
  \<^item> The model runs one thread of control. Locking a mutex that is already held
    never returns: the outcome is \<open>Blocks\<close>, with the state reached so far.
  \<^item> \<^verbatim>\<open>DebugPolicy::log\<close> only prints; it is left out.
\<close>

subsection \<open>Data\<close>

type_synonym size_t = "64 word"

datatype ptr = nullptr | Ptr nat

datatype alloc_policy = MallocAllocator | NewAllocator

datatype thread_policy = SingleThreaded | MultiThreaded

record policies =
  AllocPolicy :: alloc_policy
  ThreadPolicy :: thread_policy

text \<open>The members \<^verbatim>\<open>data_\<close>, \<^verbatim>\<open>size_\<close>, \<^verbatim>\<open>capacity_\<close> and \<^verbatim>\<open>mutex_\<close> of lines 104-108
  are the fields \<open>m_data\<close>, \<open>m_size\<close>, \<open>m_capacity\<close> and \<open>m_mutex\<close>: a name may not
  end in an underscore here. \<open>m_mutex\<close> tells whether the mutex is held.\<close>

record Vector =
  m_data :: ptr
  m_size :: size_t
  m_capacity :: size_t
  m_mutex :: bool

record 'a state =
  objects :: "nat \<rightharpoonup> Vector"
  heap :: "'a option list option list"
  avail :: nat

datatype ('r, 's) result =
    Returns 'r 's
  | Throws 's
  | Blocks nat 's
  | Undefined

fun and_then :: "('r, 's) result \<Rightarrow> ('r \<Rightarrow> 's \<Rightarrow> ('q, 's) result) \<Rightarrow> ('q, 's) result" where
  "and_then (Returns r s) f = f r s"
| "and_then (Throws s) f = Throws s"
| "and_then (Blocks m s) f = Blocks m s"
| "and_then Undefined f = Undefined"

fun for_loop :: "nat list \<Rightarrow> (nat \<Rightarrow> 's \<Rightarrow> (unit, 's) result) \<Rightarrow> 's \<Rightarrow> (unit, 's) result" where
  "for_loop [] body s = Returns () s"
| "for_loop (i # is) body s = and_then (body i s) (\<lambda>_. for_loop is body)"

subsection \<open>Objects and their members\<close>

definition live :: "nat \<Rightarrow> 'a state \<Rightarrow> bool" where
  "live this s \<longleftrightarrow> objects s this \<noteq> None"

definition obj :: "'a state \<Rightarrow> nat \<Rightarrow> Vector" where
  "obj s this = the (objects s this)"

definition upd :: "nat \<Rightarrow> (Vector \<Rightarrow> Vector) \<Rightarrow> 'a state \<Rightarrow> 'a state" where
  "upd this f s = s\<lparr>objects := (objects s)(this \<mapsto> f (obj s this))\<rparr>"

text \<open>The default member initialisers: \<^verbatim>\<open>data_ = nullptr, size_ = 0, capacity_ = 0\<close>
  and a fresh, unlocked mutex.\<close>

definition init :: "nat \<Rightarrow> 'a state \<Rightarrow> 'a state" where
  "init this s = s\<lparr>objects := (objects s)(this \<mapsto>
     \<lparr>m_data = nullptr, m_size = 0, m_capacity = 0, m_mutex = False\<rparr>)\<rparr>"

subsection \<open>Allocation strategy (lines 11-39)\<close>

definition allocate :: "policies \<Rightarrow> size_t \<Rightarrow> 'a state \<Rightarrow> (ptr, 'a state) result" where
  "allocate P n s =
     (if unat n \<le> avail s
      then Returns (Ptr (length (heap s)))
             (s\<lparr>heap := heap s @ [Some (replicate (unat n) None)],
                avail := avail s - unat n\<rparr>)
      else (case AllocPolicy P of
              MallocAllocator \<Rightarrow> Returns nullptr s
            | NewAllocator \<Rightarrow> Throws s))"

definition buffer :: "'a state \<Rightarrow> ptr \<Rightarrow> 'a option list option" where
  "buffer s p = (case p of nullptr \<Rightarrow> None
                 | Ptr a \<Rightarrow> if a < length (heap s) then heap s ! a else None)"

definition deallocate :: "ptr \<Rightarrow> 'a state \<Rightarrow> (unit, 'a state) result" where
  "deallocate p s =
     (case p of
        nullptr \<Rightarrow> Returns () s
      | Ptr a \<Rightarrow> (case buffer s p of
                   None \<Rightarrow> Undefined
                 | Some buf \<Rightarrow> Returns () (s\<lparr>heap := (heap s)[a := None],
                                             avail := avail s + length buf\<rparr>)))"

subsection \<open>Elements in place\<close>

definition set_slot :: "ptr \<Rightarrow> nat \<Rightarrow> 'a option \<Rightarrow> 'a state \<Rightarrow> 'a state" where
  "set_slot p i x s =
     (case p of nullptr \<Rightarrow> s
      | Ptr a \<Rightarrow> s\<lparr>heap := (heap s)[a := map_option (\<lambda>buf. buf[i := x]) (heap s ! a)]\<rparr>)"

text \<open>\<^verbatim>\<open>p[i]\<close> read as a value: the slot must hold a constructed element.\<close>

definition read_at :: "ptr \<Rightarrow> nat \<Rightarrow> 'a state \<Rightarrow> ('a, 'a state) result" where
  "read_at p i s =
     (case buffer s p of
        None \<Rightarrow> Undefined
      | Some buf \<Rightarrow> if i < length buf
                    then (case buf ! i of None \<Rightarrow> Undefined | Some x \<Rightarrow> Returns x s)
                    else Undefined)"

text \<open>\<^verbatim>\<open>new (&p[i]) T(x)\<close>: placement construction into a slot of the buffer.\<close>

definition construct_at :: "ptr \<Rightarrow> nat \<Rightarrow> 'a \<Rightarrow> 'a state \<Rightarrow> (unit, 'a state) result" where
  "construct_at p i x s =
     (case buffer s p of
        None \<Rightarrow> Undefined
      | Some buf \<Rightarrow> if i < length buf then Returns () (set_slot p i (Some x) s)
                    else Undefined)"

text \<open>\<^verbatim>\<open>p[i].~T()\<close>: the slot must hold a constructed element; it is raw afterwards.\<close>

definition destroy_at :: "ptr \<Rightarrow> nat \<Rightarrow> 'a state \<Rightarrow> (unit, 'a state) result" where
  "destroy_at p i s =
     and_then (read_at p i s) (\<lambda>_ s. Returns () (set_slot p i None s))"

subsection \<open>References\<close>

text \<open>A \<^verbatim>\<open>T&\<close> to an element, as \<^verbatim>\<open>operator[]\<close> returns it, is the pair of the buffer and
  the index. Reading through it needs a constructed element there, in a buffer that
  still exists.\<close>

type_synonym reference = "ptr \<times> nat"

definition load :: "reference \<Rightarrow> 'a state \<Rightarrow> ('a, 'a state) result" where
  "load ref s = read_at (fst ref) (snd ref) s"

text \<open>The parameter \<^verbatim>\<open>const T& value\<close> of \<^verbatim>\<open>push_back\<close> (line 239) is a reference that the
  caller binds. \<open>Object x\<close> is a reference to an object outside the buffers, whose
  value \<open>x\<close> nothing changes during the call: the temporary of \<^verbatim>\<open>v1.push_back(10)\<close> in
  line 334, the local \<^verbatim>\<open>value\<close> of line 392. \<open>Element ref\<close> is a reference to an
  element of a buffer, as in \<^verbatim>\<open>v.push_back(v[0])\<close>. The callee reads the object only
  where it uses the parameter.\<close>

datatype 'a const_ref = Object 'a | Element reference

definition deref :: "'a const_ref \<Rightarrow> 'a state \<Rightarrow> ('a, 'a state) result" where
  "deref r s = (case r of Object x \<Rightarrow> Returns x s | Element ref \<Rightarrow> load ref s)"

subsection \<open>Thread policy (lines 41-75)\<close>

definition lock :: "policies \<Rightarrow> nat \<Rightarrow> 'a state \<Rightarrow> (unit, 'a state) result" where
  "lock P this s =
     (case ThreadPolicy P of
        SingleThreaded \<Rightarrow> Returns () s
      | MultiThreaded \<Rightarrow>
          if \<not> live this s then Undefined
          else if m_mutex (obj s this) then Blocks this s
          else Returns () (upd this (\<lambda>v. v\<lparr>m_mutex := True\<rparr>) s))"

definition unlock :: "policies \<Rightarrow> nat \<Rightarrow> 'a state \<Rightarrow> (unit, 'a state) result" where
  "unlock P this s =
     (case ThreadPolicy P of
        SingleThreaded \<Rightarrow> Returns () s
      | MultiThreaded \<Rightarrow>
          if \<not> live this s then Undefined
          else if m_mutex (obj s this) then Returns () (upd this (\<lambda>v. v\<lparr>m_mutex := False\<rparr>) s)
          else Undefined)"

subsection \<open>Vector (lines 96-324)\<close>

text \<open>\<^verbatim>\<open>Vector()\<close>, lines 114-119.\<close>

definition Vector_default :: "nat \<Rightarrow> 'a state \<Rightarrow> (unit, 'a state) result" where
  "Vector_default this s = Returns () (init this s)"

text \<open>\<^verbatim>\<open>reserve\<close>, lines 266-286. It takes no lock.\<close>

definition reserve :: "policies \<Rightarrow> nat \<Rightarrow> size_t \<Rightarrow> 'a state \<Rightarrow> (unit, 'a state) result" where
  "reserve P this new_capacity s =
     (if \<not> live this s then Undefined
      else if new_capacity \<le> m_capacity (obj s this) then Returns () s
      else
        and_then (allocate P new_capacity s) (\<lambda>new_data s.
        and_then (for_loop [0 ..< unat (m_size (obj s this))] (\<lambda>i s.
                    and_then (read_at (m_data (obj s this)) i s) (\<lambda>x s.
                    and_then (construct_at new_data i x s) (\<lambda>_ s.
                    destroy_at (m_data (obj s this)) i s))) s) (\<lambda>_ s.
        and_then (if m_data (obj s this) \<noteq> nullptr
                  then deallocate (m_data (obj s this)) s else Returns () s) (\<lambda>_ s.
        Returns () (upd this (\<lambda>v. v\<lparr>m_data := new_data, m_capacity := new_capacity\<rparr>) s)))))"

text \<open>\<^verbatim>\<open>push_back\<close>, lines 239-252. The parameter is a reference; line 248,
  \<^verbatim>\<open>new (&data_[size_]) T(value)\<close>, reads the object it refers to, after the
  \<^verbatim>\<open>reserve\<close> of line 245.\<close>

definition push_back :: "policies \<Rightarrow> nat \<Rightarrow> 'a const_ref \<Rightarrow> 'a state \<Rightarrow> (unit, 'a state) result" where
  "push_back P this value s =
     (if \<not> live this s then Undefined
      else
        and_then (lock P this s) (\<lambda>_ s.
        and_then (if m_size (obj s this) = m_capacity (obj s this)
                  then reserve P this
                         (if m_capacity (obj s this) = 0 then 1 else m_capacity (obj s this) * 2) s
                  else Returns () s) (\<lambda>_ s.
        and_then (deref value s) (\<lambda>x s.
        and_then (construct_at (m_data (obj s this)) (unat (m_size (obj s this))) x s) (\<lambda>_ s.
        and_then (Returns () (upd this (\<lambda>v. v\<lparr>m_size := m_size v + 1\<rparr>) s)) (\<lambda>_ s.
        unlock P this s))))))"

text \<open>\<^verbatim>\<open>pop_back\<close>, lines 254-264.\<close>

definition pop_back :: "policies \<Rightarrow> nat \<Rightarrow> 'a state \<Rightarrow> (unit, 'a state) result" where
  "pop_back P this s =
     (if \<not> live this s then Undefined
      else
        and_then (lock P this s) (\<lambda>_ s.
        and_then (if m_size (obj s this) > 0
                  then and_then (Returns () (upd this (\<lambda>v. v\<lparr>m_size := m_size v - 1\<rparr>) s)) (\<lambda>_ s.
                       destroy_at (m_data (obj s this)) (unat (m_size (obj s this))) s)
                  else Returns () s) (\<lambda>_ s.
        unlock P this s)))"

text \<open>\<^verbatim>\<open>explicit Vector(size_t initial_size)\<close>, lines 121-129; \<open>dflt\<close> is the value of
  \<^verbatim>\<open>T()\<close>.\<close>

definition Vector_sized :: "policies \<Rightarrow> 'a \<Rightarrow> nat \<Rightarrow> size_t \<Rightarrow> 'a state \<Rightarrow> (unit, 'a state) result" where
  "Vector_sized P dflt this initial_size s =
     (let s = upd this (\<lambda>v. v\<lparr>m_size := initial_size, m_capacity := initial_size\<rparr>) (init this s)
      in if initial_size > 0
         then
           and_then (allocate P initial_size s) (\<lambda>p s.
           let s = upd this (\<lambda>v. v\<lparr>m_data := p\<rparr>) s
           in for_loop [0 ..< unat (m_size (obj s this))] (\<lambda>i s.
                construct_at (m_data (obj s this)) i dflt s) s)
         else Returns () s)"

text \<open>\<^verbatim>\<open>~Vector()\<close>, lines 131-139.\<close>

definition Vector_dtor :: "nat \<Rightarrow> 'a state \<Rightarrow> (unit, 'a state) result" where
  "Vector_dtor this s =
     (if \<not> live this s then Undefined
      else
        and_then (if m_data (obj s this) \<noteq> nullptr
                  then
                    and_then (for_loop [0 ..< unat (m_size (obj s this))] (\<lambda>i s.
                                destroy_at (m_data (obj s this)) i s) s) (\<lambda>_ s.
                    deallocate (m_data (obj s this)) s)
                  else Returns () s) (\<lambda>_ s.
        Returns () (s\<lparr>objects := (objects s)(this := None)\<rparr>)))"

text \<open>\<^verbatim>\<open>Vector(const Vector& other)\<close>, lines 141-157.\<close>

definition Vector_copy :: "policies \<Rightarrow> nat \<Rightarrow> nat \<Rightarrow> 'a state \<Rightarrow> (unit, 'a state) result" where
  "Vector_copy P this other s =
     (let s = init this s
      in if \<not> live other s then Undefined
         else
           and_then (lock P this s) (\<lambda>_ s.
           and_then (lock P other s) (\<lambda>_ s.
           let s = upd this (\<lambda>v. v\<lparr>m_size := m_size (obj s other)\<rparr>) s;
               s = upd this (\<lambda>v. v\<lparr>m_capacity := m_capacity (obj s other)\<rparr>) s
           in
           and_then (if m_capacity (obj s this) > 0
                     then
                       and_then (allocate P (m_capacity (obj s this)) s) (\<lambda>p s.
                       let s = upd this (\<lambda>v. v\<lparr>m_data := p\<rparr>) s
                       in for_loop [0 ..< unat (m_size (obj s this))] (\<lambda>i s.
                            and_then (read_at (m_data (obj s other)) i s) (\<lambda>x s.
                            construct_at (m_data (obj s this)) i x s)) s)
                     else Returns () s) (\<lambda>_ s.
           and_then (unlock P other s) (\<lambda>_ s.
           unlock P this s)))))"

text \<open>\<^verbatim>\<open>Vector& operator=(const Vector& other)\<close>, lines 159-189.\<close>

definition copy_assign :: "policies \<Rightarrow> nat \<Rightarrow> nat \<Rightarrow> 'a state \<Rightarrow> (unit, 'a state) result" where
  "copy_assign P this other s =
     (if this \<noteq> other
      then
        if live this s \<and> live other s
        then
          and_then (lock P this s) (\<lambda>_ s.
          and_then (lock P other s) (\<lambda>_ s.
          and_then (for_loop [0 ..< unat (m_size (obj s this))] (\<lambda>i s.
                      destroy_at (m_data (obj s this)) i s) s) (\<lambda>_ s.
          and_then (if m_data (obj s this) \<noteq> nullptr
                    then deallocate (m_data (obj s this)) s else Returns () s) (\<lambda>_ s.
          let s = upd this (\<lambda>v. v\<lparr>m_size := m_size (obj s other)\<rparr>) s;
              s = upd this (\<lambda>v. v\<lparr>m_capacity := m_capacity (obj s other)\<rparr>) s
          in
          and_then (if m_capacity (obj s this) > 0
                    then
                      and_then (allocate P (m_capacity (obj s this)) s) (\<lambda>p s.
                      let s = upd this (\<lambda>v. v\<lparr>m_data := p\<rparr>) s
                      in for_loop [0 ..< unat (m_size (obj s this))] (\<lambda>i s.
                           and_then (read_at (m_data (obj s other)) i s) (\<lambda>x s.
                           construct_at (m_data (obj s this)) i x s)) s)
                    else Returns () (upd this (\<lambda>v. v\<lparr>m_data := nullptr\<rparr>) s)) (\<lambda>_ s.
          and_then (unlock P other s) (\<lambda>_ s.
          unlock P this s))))))
        else Undefined
      else Returns () s)"

text \<open>\<^verbatim>\<open>Vector(Vector&& other) noexcept\<close>, lines 192-207.\<close>

definition Vector_move :: "policies \<Rightarrow> nat \<Rightarrow> nat \<Rightarrow> 'a state \<Rightarrow> (unit, 'a state) result" where
  "Vector_move P this other s =
     (let s = init this s
      in if \<not> live other s then Undefined
         else
           and_then (lock P this s) (\<lambda>_ s.
           and_then (lock P other s) (\<lambda>_ s.
           let s = upd this (\<lambda>v. v\<lparr>m_data := m_data (obj s other)\<rparr>) s;
               s = upd this (\<lambda>v. v\<lparr>m_size := m_size (obj s other)\<rparr>) s;
               s = upd this (\<lambda>v. v\<lparr>m_capacity := m_capacity (obj s other)\<rparr>) s;
               s = upd other (\<lambda>v. v\<lparr>m_data := nullptr\<rparr>) s;
               s = upd other (\<lambda>v. v\<lparr>m_size := 0\<rparr>) s;
               s = upd other (\<lambda>v. v\<lparr>m_capacity := 0\<rparr>) s
           in
           and_then (unlock P other s) (\<lambda>_ s.
           unlock P this s))))"

text \<open>\<^verbatim>\<open>Vector& operator=(Vector&& other) noexcept\<close>, lines 210-237.\<close>

definition move_assign :: "policies \<Rightarrow> nat \<Rightarrow> nat \<Rightarrow> 'a state \<Rightarrow> (unit, 'a state) result" where
  "move_assign P this other s =
     (if this \<noteq> other
      then
        if live this s \<and> live other s
        then
          and_then (lock P this s) (\<lambda>_ s.
          and_then (lock P other s) (\<lambda>_ s.
          and_then (for_loop [0 ..< unat (m_size (obj s this))] (\<lambda>i s.
                      destroy_at (m_data (obj s this)) i s) s) (\<lambda>_ s.
          and_then (if m_data (obj s this) \<noteq> nullptr
                    then deallocate (m_data (obj s this)) s else Returns () s) (\<lambda>_ s.
          let s = upd this (\<lambda>v. v\<lparr>m_data := m_data (obj s other)\<rparr>) s;
              s = upd this (\<lambda>v. v\<lparr>m_size := m_size (obj s other)\<rparr>) s;
              s = upd this (\<lambda>v. v\<lparr>m_capacity := m_capacity (obj s other)\<rparr>) s;
              s = upd other (\<lambda>v. v\<lparr>m_data := nullptr\<rparr>) s;
              s = upd other (\<lambda>v. v\<lparr>m_size := 0\<rparr>) s;
              s = upd other (\<lambda>v. v\<lparr>m_capacity := 0\<rparr>) s
          in
          and_then (unlock P other s) (\<lambda>_ s.
          unlock P this s)))))
        else Undefined
      else Returns () s)"

text \<open>\<^verbatim>\<open>T& operator[](size_t index)\<close>, lines 288-294. Binding the reference needs a slot
  of a buffer that exists. Assigning through the reference needs a constructed element
  there.\<close>

definition element_ref :: "ptr \<Rightarrow> nat \<Rightarrow> 'a state \<Rightarrow> (reference, 'a state) result" where
  "element_ref p i s =
     (case buffer s p of
        None \<Rightarrow> Undefined
      | Some buf \<Rightarrow> if i < length buf then Returns (p, i) s else Undefined)"

definition subscript :: "policies \<Rightarrow> nat \<Rightarrow> size_t \<Rightarrow> 'a state \<Rightarrow> (reference, 'a state) result" where
  "subscript P this index s =
     (if \<not> live this s then Undefined
      else
        and_then (lock P this s) (\<lambda>_ s.
        and_then (element_ref (m_data (obj s this)) (unat index) s) (\<lambda>ref s.
        and_then (unlock P this s) (\<lambda>_ s.
        Returns ref s))))"

definition store :: "reference \<Rightarrow> 'a \<Rightarrow> 'a state \<Rightarrow> (unit, 'a state) result" where
  "store ref x s =
     and_then (read_at (fst ref) (snd ref) s) (\<lambda>_ s.
     Returns () (set_slot (fst ref) (snd ref) (Some x) s))"

text \<open>An indexed read \<^verbatim>\<open>v[i]\<close> and an indexed write \<^verbatim>\<open>v[i] = x\<close>, as the tests of
  lines 341 and 344 use the operator.\<close>

definition index_read :: "policies \<Rightarrow> nat \<Rightarrow> size_t \<Rightarrow> 'a state \<Rightarrow> ('a, 'a state) result" where
  "index_read P this index s = and_then (subscript P this index s) load"

definition index_write :: "policies \<Rightarrow> nat \<Rightarrow> size_t \<Rightarrow> 'a \<Rightarrow> 'a state \<Rightarrow> (unit, 'a state) result" where
  "index_write P this index x s = and_then (subscript P this index s) (\<lambda>ref. store ref x)"

text \<open>\<^verbatim>\<open>size()\<close> and \<^verbatim>\<open>capacity()\<close>, lines 304-310: the counters, read without the lock.\<close>

definition size' :: "'a state \<Rightarrow> nat \<Rightarrow> size_t" where
  "size' s this = m_size (obj s this)"

definition capacity :: "'a state \<Rightarrow> nat \<Rightarrow> size_t" where
  "capacity s this = m_capacity (obj s this)"

subsection \<open>The state of \<^verbatim>\<open>testSingleThreaded\<close>\<close>

text \<open>Lines 331-336: \<^verbatim>\<open>Vector<int, MallocAllocator, SingleThreaded, DebugMode> v1\<close> with
  10, 20 and 30 pushed. The object is at address 1; the buffers of capacity 1 and 2
  have been released, the buffer of capacity 4 is at address 2.\<close>

definition test_policies :: policies where
  "test_policies = \<lparr>AllocPolicy = MallocAllocator, ThreadPolicy = SingleThreaded\<rparr>"

definition locking_policies :: policies where
  "locking_policies = \<lparr>AllocPolicy = NewAllocator, ThreadPolicy = MultiThreaded\<rparr>"

definition fresh_state :: "int state" where
  "fresh_state = \<lparr>objects = Map.empty, heap = [], avail = 64\<rparr>"

definition v1_state :: "int state" where
  "v1_state = \<lparr>objects = [1 \<mapsto> \<lparr>m_data = Ptr 2, m_size = 3, m_capacity = 4, m_mutex = False\<rparr>],
                heap = [None, None, Some [Some 10, Some 20, Some 30, None]],
                avail = 60\<rparr>"

subsection \<open>Well-formed vectors, runs and test states\<close>

text \<open>The storage of a Vector is well-formed when \<open>size_ \<le> capacity_\<close>, the buffer pointer
  is null exactly when the capacity is 0, and otherwise it points to a buffer of
  \<open>capacity_\<close> slots whose first \<open>size_\<close> slots hold constructed elements (section 3 of
  the spec: indices \<open>[0, size)\<close> are live). \<open>valid\<close> adds that nobody holds the mutex.\<close>

definition storage_ok :: "'a state \<Rightarrow> Vector \<Rightarrow> bool" where
  "storage_ok s v \<longleftrightarrow>
     m_size v \<le> m_capacity v \<and>
     (case m_data v of
        nullptr \<Rightarrow> m_capacity v = 0
      | Ptr a \<Rightarrow> m_capacity v \<noteq> 0 \<and>
          (case buffer s (Ptr a) of
             None \<Rightarrow> False
           | Some buf \<Rightarrow> length buf = unat (m_capacity v) \<and>
                        list_all (\<lambda>x. x \<noteq> None) (take (unat (m_size v)) buf)))"

definition well_formed :: "'a state \<Rightarrow> nat \<Rightarrow> bool" where
  "well_formed s this \<longleftrightarrow> (case objects s this of None \<Rightarrow> False | Some v \<Rightarrow> storage_ok s v)"

definition valid :: "'a state \<Rightarrow> nat \<Rightarrow> bool" where
  "valid s this \<longleftrightarrow> well_formed s this \<and> \<not> m_mutex (obj s this)"

text \<open>The live slots \<open>[0, size_)\<close> of the buffer, the elements they hold, and the whole
  buffer.\<close>

definition slots :: "'a state \<Rightarrow> nat \<Rightarrow> 'a option list" where
  "slots s this =
     (case buffer s (m_data (obj s this)) of
        None \<Rightarrow> []
      | Some buf \<Rightarrow> take (unat (m_size (obj s this))) buf)"

definition elements :: "'a state \<Rightarrow> nat \<Rightarrow> 'a list" where
  "elements s this = map the (slots s this)"

definition storage :: "'a state \<Rightarrow> nat \<Rightarrow> 'a option list" where
  "storage s this = (case buffer s (m_data (obj s this)) of None \<Rightarrow> [] | Some buf \<Rightarrow> buf)"

text \<open>The new capacity of line 244: \<^verbatim>\<open>capacity_ == 0 ? 1 : capacity_ * 2\<close>.\<close>

definition grown :: "size_t \<Rightarrow> size_t" where
  "grown c = (if c = 0 then 1 else c * 2)"

text \<open>A run of \<^verbatim>\<open>push_back\<close> calls, as in lines 334-336, and the number of its growth events:
  the calls that found \<^verbatim>\<open>size_ == capacity_\<close> (line 243).\<close>

fun push_all :: "policies \<Rightarrow> nat \<Rightarrow> 'a const_ref list \<Rightarrow> 'a state \<Rightarrow> (unit, 'a state) result" where
  "push_all P this [] s = Returns () s"
| "push_all P this (r # rs) s = and_then (push_back P this r s) (\<lambda>_. push_all P this rs)"

fun growth_events :: "policies \<Rightarrow> nat \<Rightarrow> 'a const_ref list \<Rightarrow> 'a state \<Rightarrow> nat" where
  "growth_events P this [] s = 0"
| "growth_events P this (r # rs) s =
     (if size' s this = capacity s this then 1 else 0) +
     (case push_back P this r s of
        Returns _ s' \<Rightarrow> growth_events P this rs s'
      | _ \<Rightarrow> 0)"

text \<open>The capacity after \<open>k\<close> growth events.\<close>

definition doubling_law :: "nat \<Rightarrow> size_t \<Rightarrow> bool" where
  "doubling_law k c \<longleftrightarrow> (if k = 0 then c = 0 else unat c = 2 ^ (k - 1))"

text \<open>\<^verbatim>\<open>v1\<close> of \<^verbatim>\<open>testSingleThreaded\<close> one push earlier: 10 and 20 in a full buffer of
  capacity 2.\<close>

definition full_state :: "int state" where
  "full_state = \<lparr>objects = [1 \<mapsto> \<lparr>m_data = Ptr 1, m_size = 2, m_capacity = 2, m_mutex = False\<rparr>],
                  heap = [None, Some [Some 10, Some 20]],
                  avail = 62\<rparr>"

text \<open>A default-constructed or moved-from Vector: lines 105-107 and 201-203.\<close>

definition moved_from :: Vector where
  "moved_from = \<lparr>m_data = nullptr, m_size = 0, m_capacity = 0, m_mutex = False\<rparr>"

text \<open>The mutations of one Vector that the claims speak of, and runs of them.\<close>

datatype 'a mutation = PushBack "'a const_ref" | PopBack | IndexWrite size_t 'a

fun mutate :: "policies \<Rightarrow> nat \<Rightarrow> 'a mutation \<Rightarrow> 'a state \<Rightarrow> (unit, 'a state) result" where
  "mutate P this (PushBack r) s = push_back P this r s"
| "mutate P this PopBack s = pop_back P this s"
| "mutate P this (IndexWrite i x) s = index_write P this i x s"

fun mutate_all :: "policies \<Rightarrow> nat \<Rightarrow> 'a mutation list \<Rightarrow> 'a state \<Rightarrow> (unit, 'a state) result" where
  "mutate_all P this [] s = Returns () s"
| "mutate_all P this (m # ms) s = and_then (mutate P this m s) (\<lambda>_. mutate_all P this ms)"

text \<open>Two Vectors with a buffer each: \<^verbatim>\<open>v1\<close> as above at address 1, and at address 2 a Vector
  holding 7 in a buffer of capacity 2.\<close>

definition pair_state :: "int state" where
  "pair_state =
     \<lparr>objects = [1 \<mapsto> \<lparr>m_data = Ptr 2, m_size = 3, m_capacity = 4, m_mutex = False\<rparr>,
                 2 \<mapsto> \<lparr>m_data = Ptr 3, m_size = 1, m_capacity = 2, m_mutex = False\<rparr>],
      heap = [None, None, Some [Some 10, Some 20, Some 30, None], Some [Some 7, None]],
      avail = 58\<rparr>"

text \<open>No object, no buffer, and no memory left: every allocation fails.\<close>

definition exhausted_state :: "int state" where
  "exhausted_state = \<lparr>objects = Map.empty, heap = [], avail = 0\<rparr>"

text \<open>The state invariant of section 3 of the spec: \<open>0 \<le> size \<le> capacity\<close>, and the buffer
  pointer is the null pointer if and only if the capacity is 0.\<close>

definition state_invariant :: "'a state \<Rightarrow> nat \<Rightarrow> bool" where
  "state_invariant s this \<longleftrightarrow>
     size' s this \<le> capacity s this \<and>
     (m_data (obj s this) = nullptr \<longleftrightarrow> capacity s this = 0)"

text \<open>\<^verbatim>\<open>v1\<close> of \<^verbatim>\<open>testSingleThreaded\<close> after its first push: 10 in a full buffer of
  capacity 1.\<close>

definition one_state :: "int state" where
  "one_state = \<lparr>objects = [1 \<mapsto> \<lparr>m_data = Ptr 0, m_size = 1, m_capacity = 1, m_mutex = False\<rparr>],
                 heap = [Some [Some 10]],
                 avail = 63\<rparr>"

text \<open>\<^verbatim>\<open>v1\<close> after \<^verbatim>\<open>push_back(10)\<close> and \<^verbatim>\<open>reserve(2)\<close>: 10 in a buffer of capacity 2 with
  room for one more.\<close>

definition reserved_state :: "int state" where
  "reserved_state = \<lparr>objects = [1 \<mapsto> \<lparr>m_data = Ptr 1, m_size = 1, m_capacity = 2, m_mutex = False\<rparr>],
                      heap = [None, Some [Some 10, None]],
                      avail = 62\<rparr>"

text \<open>10 and 10 in a full buffer of capacity 2.\<close>

definition aliased_state :: "int state" where
  "aliased_state = \<lparr>objects = [1 \<mapsto> \<lparr>m_data = Ptr 1, m_size = 2, m_capacity = 2, m_mutex = False\<rparr>],
                     heap = [None, Some [Some 10, Some 10]],
                     avail = 62\<rparr>"

text \<open>What pushes alone keep: a capacity of 0 with size 0, or
  \<open>size_ \<le> capacity_ < 2 * size_\<close>.\<close>

definition amortized :: "'a state \<Rightarrow> nat \<Rightarrow> bool" where
  "amortized s this \<longleftrightarrow>
     (if m_capacity (obj s this) = 0 then m_size (obj s this) = 0
      else unat (m_size (obj s this)) \<le> unat (m_capacity (obj s this)) \<and>
           unat (m_capacity (obj s this)) < 2 * unat (m_size (obj s this)))"

text \<open>Whether a reference is to an element of the buffer \<open>p\<close>.\<close>

fun refers_into :: "'a const_ref \<Rightarrow> ptr \<Rightarrow> bool" where
  "refers_into (Object x) p = False"
| "refers_into (Element ref) p = (fst ref = p)"

section \<open>Lemmas\<close>

subsection \<open>Sequencing, loops and the store\<close>

lemma and_then_Returns_iff:
  "and_then r f = Returns y s' \<longleftrightarrow> (\<exists>x s1. r = Returns x s1 \<and> f x s1 = Returns y s')"
  by (cases r) auto

lemma and_then_assoc:
  "and_then (and_then r f) g = and_then r (\<lambda>x s. and_then (f x s) g)"
  by (cases r) simp_all

lemma for_loop_append:
  "for_loop (xs @ ys) body s = and_then (for_loop xs body s) (\<lambda>_. for_loop ys body)"
proof (induction xs arbitrary: s)
  case Nil
  show ?case by simp
next
  case (Cons i xs)
  show ?case
    by (cases "body i s") (simp_all add: Cons.IH)
qed

lemma for_loop_Suc:
  "for_loop [0 ..< Suc n] body s = and_then (for_loop [0 ..< n] body s) (\<lambda>_. body n)"
proof -
  have "for_loop [n] body t = body n t" for t
    by (cases "body n t") simp_all
  then have "for_loop [n] body = body n" by (simp add: fun_eq_iff)
  then show ?thesis by (simp add: for_loop_append)
qed

lemma buffer_nullptr [simp]: "buffer s nullptr = None"
  by (simp add: buffer_def)

lemma buffer_fresh [simp]: "buffer s (Ptr (length (heap s))) = None"
  by (simp add: buffer_def)

lemma objects_upd [simp]: "objects (upd this f s) = (objects s)(this \<mapsto> f (obj s this))"
  and heap_upd [simp]: "heap (upd this f s) = heap s"
  and avail_upd [simp]: "avail (upd this f s) = avail s"
  and buffer_upd [simp]: "buffer (upd this f s) = buffer s"
  by (simp_all add: upd_def buffer_def fun_eq_iff split: ptr.splits)

lemma objects_init [simp]: "objects (init this s) = (objects s)(this \<mapsto>
     \<lparr>m_data = nullptr, m_size = 0, m_capacity = 0, m_mutex = False\<rparr>)"
  and heap_init [simp]: "heap (init this s) = heap s"
  and avail_init [simp]: "avail (init this s) = avail s"
  and buffer_init [simp]: "buffer (init this s) = buffer s"
  by (simp_all add: init_def buffer_def fun_eq_iff split: ptr.splits)

lemma objects_set_slot [simp]: "objects (set_slot p i x s) = objects s"
  and avail_set_slot [simp]: "avail (set_slot p i x s) = avail s"
  and length_heap_set_slot [simp]: "length (heap (set_slot p i x s)) = length (heap s)"
  by (simp_all add: set_slot_def split: ptr.splits)

lemma buffer_set_slot [simp]:
  "buffer (set_slot p i x s) = (buffer s)(p := map_option (\<lambda>buf. buf[i := x]) (buffer s p))"
  by (auto simp: set_slot_def buffer_def fun_eq_iff split: ptr.splits)

lemma obj_upd [simp]: "obj (upd this f s) that = (if that = this then f (obj s this) else obj s that)"
  and obj_set_slot [simp]: "obj (set_slot p i x s) that = obj s that"
  and live_upd [simp]: "live that (upd this f s) \<longleftrightarrow> that = this \<or> live that s"
  and live_set_slot [simp]: "live that (set_slot p i x s) \<longleftrightarrow> live that s"
  by (simp_all add: obj_def live_def)

lemma obj_heap_update [simp]: "obj (s\<lparr>heap := h\<rparr>) = obj s"
  and obj_avail_update [simp]: "obj (s\<lparr>avail := k\<rparr>) = obj s"
  and live_heap_update [simp]: "live this (s\<lparr>heap := h\<rparr>) = live this s"
  and live_avail_update [simp]: "live this (s\<lparr>avail := k\<rparr>) = live this s"
  by (simp_all add: obj_def live_def fun_eq_iff)

lemma buffer_grow [simp]:
  "buffer (s\<lparr>heap := heap s @ [Some b], avail := k\<rparr>) = (buffer s)(Ptr (length (heap s)) \<mapsto> b)"
  by (auto simp: buffer_def fun_eq_iff nth_append split: ptr.splits)

lemma buffer_free [simp]:
  "buffer (s\<lparr>heap := (heap s)[a := None], avail := k\<rparr>) = (buffer s)(Ptr a := None)"
  by (auto simp: buffer_def fun_eq_iff split: ptr.splits)

subsection \<open>Arithmetic of \<^verbatim>\<open>size_t\<close> and lists of slots\<close>

lemma unat_inc:
  fixes x y :: size_t
  assumes "x < y"
  shows "unat (x + 1) = Suc (unat x)"
proof -
  have "unat x < unat y" using assms by (simp add: word_less_nat_alt)
  moreover have "unat y < 2 ^ 64" using unsigned_less [of y] by simp
  ultimately have "unat x + 1 < 2 ^ 64" by simp
  then show ?thesis by (simp add: unat_word_ariths)
qed

lemma unat_double:
  fixes c :: size_t
  assumes "c < c * 2"
  shows "unat (c * 2) = 2 * unat c"
proof -
  have lt: "unat c < 2 ^ 64" using unsigned_less [of c] by simp
  have eq: "unat (c * 2) = (unat c * 2) mod 2 ^ 64" by (simp add: unat_word_ariths)
  have less: "unat c < (unat c * 2) mod 2 ^ 64"
    using assms eq by (simp add: word_less_nat_alt)
  show ?thesis
  proof (cases "unat c * 2 < 2 ^ 64")
    case True
    then show ?thesis using eq by simp
  next
    case False
    then have "(unat c * 2) mod 2 ^ 64 = unat c * 2 - 2 ^ 64"
      using lt by (simp add: mod_if)
    then show ?thesis using less lt by simp
  qed
qed

lemma unat_dec:
  fixes x :: size_t
  assumes "0 < x"
  shows "unat (x - 1) = unat x - 1"
  using assms by (metis unat_minus_one order_less_irrefl)

lemma take_drop_update:
  assumes "n < length xs" "n < length ys" "xs ! n = v"
  shows "(take n xs @ drop n ys)[n := v] = take (Suc n) xs @ drop (Suc n) ys"
proof -
  have "drop n ys = ys ! n # drop (Suc n) ys"
    using assms(2) by (simp add: Cons_nth_drop_Suc)
  then have "(take n xs @ drop n ys)[n := v] = take n xs @ v # drop (Suc n) ys"
    using assms(1) by (simp add: list_update_append)
  then show ?thesis
    using assms(1,3) by (simp add: take_Suc_conv_app_nth)
qed

lemma replicate_drop_update:
  assumes "n < length xs"
  shows "(replicate n x @ drop n xs)[n := x] = replicate (Suc n) x @ drop (Suc n) xs"
proof -
  have "drop n xs = xs ! n # drop (Suc n) xs"
    using assms by (simp add: Cons_nth_drop_Suc)
  then have "(replicate n x @ drop n xs)[n := x] = replicate n x @ x # drop (Suc n) xs"
    by (simp add: list_update_append)
  then show ?thesis
    by (simp add: replicate_append_same)
qed

lemma replicate_drop_nth:
  assumes "n < length xs"
  shows "(replicate n x @ drop n xs) ! n = xs ! n"
  using assms by (simp add: nth_append)

subsection \<open>The loops over the elements\<close>

lemma relocate_loop:
  assumes "m_data (obj s this) = p" "buffer s p = Some bp" "buffer s q = Some bq" "p \<noteq> q"
    and "n \<le> length bp" "n \<le> length bq" "list_all (\<lambda>x. x \<noteq> None) (take n bp)"
  shows "\<exists>s'. for_loop [0 ..< n] (\<lambda>i s.
                    and_then (read_at (m_data (obj s this)) i s) (\<lambda>x s.
                    and_then (construct_at q i x s) (\<lambda>_ s.
                    destroy_at (m_data (obj s this)) i s))) s = Returns () s' \<and>
              objects s' = objects s \<and> avail s' = avail s \<and>
              length (heap s') = length (heap s) \<and>
              buffer s' = (buffer s)(q \<mapsto> take n bp @ drop n bq,
                                     p \<mapsto> replicate n None @ drop n bp)"
  using assms(5-7)
proof (induction n)
  case 0
  show ?case using assms(1-4) by (auto simp: fun_eq_iff)
next
  case (Suc n)
  then have nlt: "n < length bp" "n < length bq" by simp_all
  from Suc.prems have pre: "list_all (\<lambda>x. x \<noteq> None) (take n bp)" and "bp ! n \<noteq> None"
    using nlt by (simp_all add: take_Suc_conv_app_nth)
  then obtain x where x: "bp ! n = Some x" by auto
  from Suc.IH [OF less_imp_le [OF nlt(1)] less_imp_le [OF nlt(2)] pre]
  obtain s1 where s1: "for_loop [0 ..< n] (\<lambda>i s.
                    and_then (read_at (m_data (obj s this)) i s) (\<lambda>x s.
                    and_then (construct_at q i x s) (\<lambda>_ s.
                    destroy_at (m_data (obj s this)) i s))) s = Returns () s1"
    "objects s1 = objects s" "avail s1 = avail s" "length (heap s1) = length (heap s)"
    "buffer s1 = (buffer s)(q \<mapsto> take n bp @ drop n bq, p \<mapsto> replicate n None @ drop n bp)"
    by blast
  have p1: "m_data (obj s1 this) = p" using s1(2) assms(1) by (simp add: obj_def)
  show ?case
    unfolding for_loop_Suc s1(1)
    using s1(2-5) p1 nlt x assms(4)
    by (simp add: read_at_def construct_at_def destroy_at_def obj_def replicate_drop_nth
        take_drop_update replicate_drop_update nth_append fun_eq_iff)
qed

lemma read_at_ok:
  "buffer s p = Some buf \<Longrightarrow> i < length buf \<Longrightarrow> buf ! i = Some x \<Longrightarrow> read_at p i s = Returns x s"
  by (simp add: read_at_def)

lemma construct_at_ok:
  "buffer s p = Some buf \<Longrightarrow> i < length buf \<Longrightarrow>
   construct_at p i x s = Returns () (set_slot p i (Some x) s)"
  by (simp add: construct_at_def)

lemma destroy_at_ok:
  "buffer s p = Some buf \<Longrightarrow> i < length buf \<Longrightarrow> buf ! i = Some x \<Longrightarrow>
   destroy_at p i s = Returns () (set_slot p i None s)"
  by (simp add: destroy_at_def read_at_def)

lemma destroy_loop:
  assumes "m_data (obj s this) = p" "buffer s p = Some bp"
    and "n \<le> length bp" "list_all (\<lambda>x. x \<noteq> None) (take n bp)"
  shows "\<exists>s'. for_loop [0 ..< n] (\<lambda>i s. destroy_at (m_data (obj s this)) i s) s = Returns () s' \<and>
              objects s' = objects s \<and> avail s' = avail s \<and>
              length (heap s') = length (heap s) \<and>
              buffer s' = (buffer s)(p \<mapsto> replicate n None @ drop n bp)"
  using assms(3-4)
proof (induction n)
  case 0
  show ?case using assms(1-2) by (auto simp: fun_eq_iff)
next
  case (Suc n)
  then have nlt: "n < length bp" by simp
  from Suc.prems have pre: "list_all (\<lambda>x. x \<noteq> None) (take n bp)" and "bp ! n \<noteq> None"
    using nlt by (simp_all add: take_Suc_conv_app_nth)
  then obtain x where x: "bp ! n = Some x" by auto
  from Suc.IH [OF less_imp_le [OF nlt] pre]
  obtain s1 where s1: "for_loop [0 ..< n] (\<lambda>i s. destroy_at (m_data (obj s this)) i s) s = Returns () s1"
    "objects s1 = objects s" "avail s1 = avail s" "length (heap s1) = length (heap s)"
    "buffer s1 = (buffer s)(p \<mapsto> replicate n None @ drop n bp)"
    by blast
  have p1: "m_data (obj s1 this) = p" using s1(2) assms(1) by (simp add: obj_def)
  show ?case
    unfolding for_loop_Suc s1(1)
    using s1(2-5) p1 nlt x
    by (simp add: read_at_def destroy_at_def obj_def replicate_drop_nth
        replicate_drop_update nth_append fun_eq_iff)
qed

lemma copy_loop:
  assumes "m_data (obj s this) = q" "m_data (obj s other) = p"
    and "buffer s p = Some bp" "buffer s q = Some bq" "p \<noteq> q"
    and "n \<le> length bp" "n \<le> length bq" "list_all (\<lambda>x. x \<noteq> None) (take n bp)"
  shows "\<exists>s'. for_loop [0 ..< n] (\<lambda>i s.
                    and_then (read_at (m_data (obj s other)) i s) (\<lambda>x s.
                    construct_at (m_data (obj s this)) i x s)) s = Returns () s' \<and>
              objects s' = objects s \<and> avail s' = avail s \<and>
              length (heap s') = length (heap s) \<and>
              buffer s' = (buffer s)(q \<mapsto> take n bp @ drop n bq)"
  using assms(6-8)
proof (induction n)
  case 0
  show ?case using assms(1-5) by (auto simp: fun_eq_iff)
next
  case (Suc n)
  then have nlt: "n < length bp" "n < length bq" by simp_all
  from Suc.prems have pre: "list_all (\<lambda>x. x \<noteq> None) (take n bp)" and "bp ! n \<noteq> None"
    using nlt by (simp_all add: take_Suc_conv_app_nth)
  then obtain x where x: "bp ! n = Some x" by auto
  from Suc.IH [OF less_imp_le [OF nlt(1)] less_imp_le [OF nlt(2)] pre]
  obtain s1 where s1: "for_loop [0 ..< n] (\<lambda>i s.
                    and_then (read_at (m_data (obj s other)) i s) (\<lambda>x s.
                    construct_at (m_data (obj s this)) i x s)) s = Returns () s1"
    "objects s1 = objects s" "avail s1 = avail s" "length (heap s1) = length (heap s)"
    "buffer s1 = (buffer s)(q \<mapsto> take n bp @ drop n bq)"
    by blast
  have p1: "m_data (obj s1 this) = q" "m_data (obj s1 other) = p"
    using s1(2) assms(1,2) by (simp_all add: obj_def)
  show ?case
    unfolding for_loop_Suc s1(1)
    using s1(2-5) p1 nlt x assms(3,5)
    by (simp add: read_at_def construct_at_def obj_def take_drop_update fun_eq_iff)
qed

lemma fill_loop:
  assumes "m_data (obj s this) = q" "buffer s q = Some bq" "n \<le> length bq"
  shows "\<exists>s'. for_loop [0 ..< n] (\<lambda>i s. construct_at (m_data (obj s this)) i x s) s = Returns () s' \<and>
              objects s' = objects s \<and> avail s' = avail s \<and>
              length (heap s') = length (heap s) \<and>
              buffer s' = (buffer s)(q \<mapsto> replicate n (Some x) @ drop n bq)"
  using assms(3)
proof (induction n)
  case 0
  show ?case using assms(1-2) by (auto simp: fun_eq_iff)
next
  case (Suc n)
  then have nlt: "n < length bq" by simp
  from Suc.IH [OF less_imp_le [OF nlt]]
  obtain s1 where s1: "for_loop [0 ..< n] (\<lambda>i s. construct_at (m_data (obj s this)) i x s) s = Returns () s1"
    "objects s1 = objects s" "avail s1 = avail s" "length (heap s1) = length (heap s)"
    "buffer s1 = (buffer s)(q \<mapsto> replicate n (Some x) @ drop n bq)"
    by blast
  have p1: "m_data (obj s1 this) = q" using s1(2) assms(1) by (simp add: obj_def)
  show ?case
    unfolding for_loop_Suc s1(1)
    using s1(2-5) p1 nlt
    by (simp add: construct_at_def obj_def replicate_drop_update fun_eq_iff)
qed

subsection \<open>reserve\<close>

lemma well_formed_cases [consumes 1, case_names null buf]:
  assumes "well_formed s this"
  obtains
    (null) v where "objects s this = Some v" "m_data v = nullptr" "m_capacity v = 0" "m_size v = 0"
  | (buf) v a buf where "objects s this = Some v" "m_data v = Ptr a" "m_capacity v \<noteq> 0"
      "buffer s (Ptr a) = Some buf" "length buf = unat (m_capacity v)"
      "m_size v \<le> m_capacity v" "list_all (\<lambda>x. x \<noteq> None) (take (unat (m_size v)) buf)"
proof -
  from assms obtain v where v: "objects s this = Some v" "storage_ok s v"
    by (auto simp: well_formed_def split: option.splits)
  show thesis
  proof (cases "m_data v")
    case nullptr
    with v show thesis by (intro null [of v]) (auto simp: storage_ok_def)
  next
    case (Ptr a)
    with v show thesis
      by (intro buf [of v a "the (buffer s (Ptr a))"])
         (auto simp: storage_ok_def split: option.splits)
  qed
qed

lemma reserve_noop:
  "live this s \<Longrightarrow> n \<le> m_capacity (obj s this) \<Longrightarrow> reserve P this n s = Returns () s"
  by (simp add: reserve_def)

lemma reserve_grow:
  assumes "well_formed s this" "m_capacity (obj s this) < n" "unat n \<le> avail s"
  shows "\<exists>s'. reserve P this n s = Returns () s' \<and>
      objects s' = (objects s)(this \<mapsto>
         (obj s this)\<lparr>m_data := Ptr (length (heap s)), m_capacity := n\<rparr>) \<and>
      avail s' = avail s - unat n + unat (m_capacity (obj s this)) \<and>
      length (heap s') = Suc (length (heap s)) \<and>
      buffer s' = (buffer s)(m_data (obj s this) := None,
         Ptr (length (heap s)) \<mapsto>
           slots s this @ replicate (unat n - unat (m_size (obj s this))) None)"
  using assms(1)
proof (cases rule: well_formed_cases)
  case (null v)
  then show ?thesis
    using assms(2,3)
    by (auto simp: reserve_def live_def obj_def allocate_def slots_def fun_eq_iff)
next
  case (buf v a buf)
  let ?L = "length (heap s)"
  let ?sa = "s\<lparr>heap := heap s @ [Some (replicate (unat n) None)], avail := avail s - unat n\<rparr>"
  have ob: "obj s this = v" and lv: "live this s" using buf(1) by (simp_all add: obj_def live_def)
  have al: "allocate P n s = Returns (Ptr ?L) ?sa"
    using assms(3) by (simp add: allocate_def)
  have neq: "Ptr a \<noteq> Ptr ?L" using buf(4) by (auto simp: buffer_def split: if_splits)
  have k: "unat (m_size v) \<le> length buf" "unat (m_size v) \<le> unat n"
    using buf(5,6) assms(2) ob by (simp_all add: word_le_nat_alt word_less_nat_alt)
  have "\<exists>s'. for_loop [0 ..< unat (m_size v)] (\<lambda>i s.
                    and_then (read_at (m_data (obj s this)) i s) (\<lambda>x s.
                    and_then (construct_at (Ptr ?L) i x s) (\<lambda>_ s.
                    destroy_at (m_data (obj s this)) i s))) ?sa = Returns () s' \<and>
              objects s' = objects ?sa \<and> avail s' = avail ?sa \<and>
              length (heap s') = length (heap ?sa) \<and>
              buffer s' = (buffer ?sa)(Ptr ?L \<mapsto> take (unat (m_size v)) buf @ drop (unat (m_size v)) (replicate (unat n) None),
                                     Ptr a \<mapsto> replicate (unat (m_size v)) None @ drop (unat (m_size v)) buf)"
    by (rule relocate_loop) (use buf neq k in \<open>simp_all add: obj_def\<close>)
  then obtain s1 where s1:
    "for_loop [0 ..< unat (m_size v)] (\<lambda>i s.
                    and_then (read_at (m_data (obj s this)) i s) (\<lambda>x s.
                    and_then (construct_at (Ptr ?L) i x s) (\<lambda>_ s.
                    destroy_at (m_data (obj s this)) i s))) ?sa = Returns () s1"
    "objects s1 = objects s" "avail s1 = avail s - unat n" "length (heap s1) = Suc ?L"
    "buffer s1 = (buffer ?sa)(Ptr ?L \<mapsto> take (unat (m_size v)) buf @ drop (unat (m_size v)) (replicate (unat n) None),
                                     Ptr a \<mapsto> replicate (unat (m_size v)) None @ drop (unat (m_size v)) buf)"
    by auto
  have ob1: "obj s1 this = v" using s1(2) buf(1) by (simp add: obj_def)
  have ncap: "\<not> n \<le> m_capacity v" using assms(2) ob by simp
  show ?thesis
    using ncap assms(3) lv ob al s1 ob1 buf k neq
    by (simp add: reserve_def deallocate_def slots_def fun_eq_iff)
qed

lemma list_all_take_nth:
  "list_all P (take k xs) \<Longrightarrow> i < k \<Longrightarrow> i < length xs \<Longrightarrow> P (xs ! i)"
  by (simp add: list_all_length)

lemma list_all_take_le:
  assumes "list_all P (take k xs)" "j \<le> k"
  shows "list_all P (take j xs)"
proof -
  have "set (take j xs) \<subseteq> set (take k xs)"
    using assms(2) by (rule set_take_subset_set_take)
  then show ?thesis using assms(1) by (auto simp: list_all_iff)
qed

lemma reserve_oom_new:
  assumes "live this s" "m_capacity (obj s this) < n" "\<not> unat n \<le> avail s"
    and "AllocPolicy P = NewAllocator"
  shows "reserve P this n s = Throws s"
proof -
  have "\<not> n \<le> m_capacity (obj s this)" using assms(2) by simp
  then show ?thesis using assms by (simp add: reserve_def allocate_def)
qed

lemma reserve_oom_malloc_empty:
  assumes "well_formed s this" "m_capacity (obj s this) < n" "\<not> unat n \<le> avail s"
    and "AllocPolicy P = MallocAllocator" "m_size (obj s this) = 0"
  shows "\<exists>s'. reserve P this n s = Returns () s' \<and>
      objects s' = (objects s)(this \<mapsto> (obj s this)\<lparr>m_data := nullptr, m_capacity := n\<rparr>) \<and>
      avail s' = avail s + unat (m_capacity (obj s this)) \<and>
      length (heap s') = length (heap s) \<and>
      buffer s' = (buffer s)(m_data (obj s this) := None)"
proof -
  have ncap: "\<not> n \<le> m_capacity (obj s this)" using assms(2) by simp
  from assms(1) show ?thesis
  proof (cases rule: well_formed_cases)
    case (null v)
    then show ?thesis using ncap assms(3-5)
      by (auto simp: reserve_def allocate_def live_def obj_def fun_eq_iff)
  next
    case (buf v a buf)
    then show ?thesis using ncap assms(3-5)
      by (auto simp: reserve_def allocate_def deallocate_def live_def obj_def fun_eq_iff)
  qed
qed

lemma reserve_oom_malloc_populated:
  assumes "well_formed s this" "m_capacity (obj s this) < n" "\<not> unat n \<le> avail s"
    and "AllocPolicy P = MallocAllocator" "m_size (obj s this) \<noteq> 0"
  shows "reserve P this n s = Undefined"
proof -
  have ncap: "\<not> n \<le> m_capacity (obj s this)" using assms(2) by simp
  have pos: "0 < unat (m_size (obj s this))" using assms(5) by (simp add: unat_gt_0)
  from assms(1) show ?thesis
  proof (cases rule: well_formed_cases)
    case (null v)
    then show ?thesis using assms(5) by (simp add: obj_def)
  next
    case (buf v a buf)
    have ob: "obj s this = v" using buf(1) by (simp add: obj_def)
    have "0 < length buf" using pos buf(5,6) ob by (simp add: word_le_nat_alt)
    moreover have "buf ! 0 \<noteq> None"
      using list_all_take_nth [OF buf(7), of 0] pos ob \<open>0 < length buf\<close> by simp
    ultimately show ?thesis using ncap assms(3-4) buf(1,2,4) pos ob
      by (auto simp: reserve_def allocate_def live_def upt_conv_Cons read_at_def construct_at_def)
  qed
qed

subsection \<open>Locking and unlocking\<close>

lemma size_less_capacity:
  fixes a b :: size_t
  assumes "a \<le> b" "a \<noteq> b"
  shows "unat a < unat b"
proof -
  have "a < b" using assms by simp
  then show ?thesis by (simp add: word_less_nat_alt)
qed

lemma lock_single:
  "ThreadPolicy P = SingleThreaded \<Longrightarrow> lock P this s = Returns () s"
  "ThreadPolicy P = SingleThreaded \<Longrightarrow> unlock P this s = Returns () s"
  by (simp_all add: lock_def unlock_def)

lemma lock_multi:
  "ThreadPolicy P = MultiThreaded \<Longrightarrow> live this s \<Longrightarrow> \<not> m_mutex (obj s this) \<Longrightarrow>
   lock P this s = Returns () (upd this (\<lambda>v. v\<lparr>m_mutex := True\<rparr>) s)"
  by (simp add: lock_def)

lemma lock_blocks:
  "ThreadPolicy P = MultiThreaded \<Longrightarrow> live this s \<Longrightarrow> m_mutex (obj s this) \<Longrightarrow>
   lock P this s = Blocks this s"
  by (simp add: lock_def)

lemma unlock_multi:
  "ThreadPolicy P = MultiThreaded \<Longrightarrow> live this s \<Longrightarrow> m_mutex (obj s this) \<Longrightarrow>
   unlock P this s = Returns () (upd this (\<lambda>v. v\<lparr>m_mutex := False\<rparr>) s)"
  by (simp add: unlock_def)

lemma valid_live: "valid s this \<Longrightarrow> live this s"
  by (auto simp: valid_def well_formed_def live_def split: option.splits)

lemma storage_ok_mutex [simp]: "storage_ok s (v\<lparr>m_mutex := b\<rparr>) \<longleftrightarrow> storage_ok s v"
  by (simp add: storage_ok_def cong: ptr.case_cong option.case_cong)

lemma storage_ok_upd [simp]: "storage_ok (upd this f s) v \<longleftrightarrow> storage_ok s v"
  by (simp add: storage_ok_def cong: ptr.case_cong option.case_cong)

lemma well_formed_mutex [simp]:
  "live this s \<Longrightarrow> well_formed (upd this (\<lambda>v. v\<lparr>m_mutex := b\<rparr>) s) this \<longleftrightarrow> well_formed s this"
  by (auto simp: well_formed_def obj_def live_def)

lemma storage_okI:
  assumes "m_data v = Ptr a" "m_capacity v \<noteq> 0" "buffer s (Ptr a) = Some buf"
    and "length buf = unat (m_capacity v)" "m_size v \<le> m_capacity v"
    and "list_all (\<lambda>x. x \<noteq> None) (take (unat (m_size v)) buf)"
  shows "storage_ok s v"
  using assms by (simp add: storage_ok_def)

lemma upd_mutex_id:
  assumes "live this s" "m_mutex (obj s this) = b"
  shows "upd this (\<lambda>v. v\<lparr>m_mutex := b\<rparr>) s = s"
proof -
  from assms obtain v where "objects s this = Some v" "m_mutex v = b"
    by (auto simp: live_def obj_def)
  then have "(objects s)(this \<mapsto> v\<lparr>m_mutex := b\<rparr>) = objects s"
    by (auto simp: fun_eq_iff)
  then show ?thesis using \<open>objects s this = Some v\<close> by (simp add: upd_def obj_def)
qed

lemma lock_ok:
  assumes "live this s" "\<not> m_mutex (obj s this)"
  shows "lock P this s =
    Returns () (upd this (\<lambda>v. v\<lparr>m_mutex := (ThreadPolicy P = MultiThreaded)\<rparr>) s)"
proof (cases "ThreadPolicy P")
  case SingleThreaded
  then show ?thesis using upd_mutex_id [OF assms(1), of False] assms(2)
    by (simp add: lock_single)
next
  case MultiThreaded
  then show ?thesis using assms by (simp add: lock_multi)
qed

lemma unlock_ok:
  assumes "live this s" "m_mutex (obj s this) = (ThreadPolicy P = MultiThreaded)"
  shows "unlock P this s = Returns () (upd this (\<lambda>v. v\<lparr>m_mutex := False\<rparr>) s)"
proof (cases "ThreadPolicy P")
  case SingleThreaded
  then show ?thesis using upd_mutex_id [OF assms(1), of False] assms(2)
    by (simp add: lock_single)
next
  case MultiThreaded
  then show ?thesis using assms by (simp add: unlock_multi)
qed

lemma slots_mutex [simp]:
  "live this s \<Longrightarrow> slots (upd this (\<lambda>v. v\<lparr>m_mutex := b\<rparr>) s) this = slots s this"
  by (simp add: slots_def cong: option.case_cong)

lemma well_formed_slots:
  assumes "well_formed s this"
  shows "length (slots s this) = unat (m_size (obj s this))"
    and "list_all (\<lambda>x. x \<noteq> None) (slots s this)"
  using assms
  by (cases rule: well_formed_cases; simp add: slots_def obj_def word_le_nat_alt)+

lemma deref_Object [simp]: "deref (Object x) s = Returns x s"
  by (simp add: deref_def)

subsection \<open>push_back\<close>

lemma push_back_room:
  assumes "valid s this" "m_size (obj s this) \<noteq> m_capacity (obj s this)"
  shows "\<exists>s'. push_back P this (Object x) s = Returns () s' \<and>
      objects s' = (objects s)(this \<mapsto> (obj s this)\<lparr>m_size := m_size (obj s this) + 1\<rparr>) \<and>
      avail s' = avail s \<and> length (heap s') = length (heap s) \<and>
      buffer s' = (buffer s)(m_data (obj s this) \<mapsto>
         (storage s this)[unat (m_size (obj s this)) := Some x])"
proof -
  have lv: "live this s" and mx: "\<not> m_mutex (obj s this)" and w: "well_formed s this"
    using assms(1) by (simp_all add: valid_live) (simp_all add: valid_def)
  from w show ?thesis
  proof (cases rule: well_formed_cases)
    case (null v)
    then show ?thesis using assms(2) by (simp add: obj_def)
  next
    case (buf v a buf)
    have ob: "obj s this = v" using buf(1) by (simp add: obj_def)
    have k: "unat (m_size v) < length buf"
      using buf(5,6) assms(2) ob by (simp add: size_less_capacity)
    have eqv: "v\<lparr>m_mutex := b, m_size := m_size v + 1, m_mutex := False\<rparr> = v\<lparr>m_size := m_size v + 1\<rparr>" for b
      using mx ob by simp
    show ?thesis using lv mx ob assms(2) buf k eqv
      by (simp add: push_back_def lock_ok unlock_ok construct_at_def storage_def fun_eq_iff)
  qed
qed

lemma push_back_grow:
  assumes "valid s this" "m_size (obj s this) = m_capacity (obj s this)"
    and "n = (if m_capacity (obj s this) = 0 then 1 else m_capacity (obj s this) * 2)"
    and "m_capacity (obj s this) < n" "unat n \<le> avail s"
  shows "\<exists>s'. push_back P this (Object x) s = Returns () s' \<and>
      objects s' = (objects s)(this \<mapsto> (obj s this)\<lparr>m_data := Ptr (length (heap s)),
         m_capacity := n, m_size := m_size (obj s this) + 1\<rparr>) \<and>
      avail s' = avail s - unat n + unat (m_capacity (obj s this)) \<and>
      length (heap s') = Suc (length (heap s)) \<and>
      buffer s' = (buffer s)(m_data (obj s this) := None,
         Ptr (length (heap s)) \<mapsto>
           (slots s this @ replicate (unat n - unat (m_size (obj s this))) None)
             [unat (m_size (obj s this)) := Some x])"
proof -
  have lv: "live this s" and mx: "\<not> m_mutex (obj s this)" and w: "well_formed s this"
    using assms(1) by (simp_all add: valid_live) (simp_all add: valid_def)
  let ?b = "ThreadPolicy P = MultiThreaded"
  let ?s1 = "upd this (\<lambda>v. v\<lparr>m_mutex := ?b\<rparr>) s"
  let ?v = "obj s this"
  have w1: "well_formed ?s1 this" using w lv by simp
  have c1: "m_capacity (obj ?s1 this) < n" and a1: "unat n \<le> avail ?s1"
    using assms(4,5) by simp_all
  from reserve_grow [OF w1 c1 a1, of P]
  obtain s2 where s2: "reserve P this n ?s1 = Returns () s2"
    "objects s2 = (objects s)(this \<mapsto> ?v\<lparr>m_mutex := ?b, m_data := Ptr (length (heap s)), m_capacity := n\<rparr>)"
    "avail s2 = avail s - unat n + unat (m_capacity ?v)"
    "length (heap s2) = Suc (length (heap s))"
    "buffer s2 = (buffer s)(m_data ?v := None, Ptr (length (heap s)) \<mapsto>
           slots s this @ replicate (unat n - unat (m_size ?v)) None)"
    using lv by auto
  have k: "unat (m_size ?v) < unat n"
    using assms(2,4) by (simp add: word_less_nat_alt)
  have len: "length (slots s this) = unat (m_size ?v)"
    using well_formed_slots [OF w] by simp
  have ob2: "obj s2 this = ?v\<lparr>m_mutex := ?b, m_data := Ptr (length (heap s)), m_capacity := n\<rparr>"
    and lv2: "live this s2"
    using s2(2) by (simp_all add: obj_def live_def)
  have eqv: "?v\<lparr>m_mutex := b, m_data := p, m_capacity := n, m_size := z, m_mutex := False\<rparr>
      = ?v\<lparr>m_data := p, m_capacity := n, m_size := z\<rparr>" for b p z
    using mx by simp
  have pb: "push_back P this (Object x) s =
      and_then (reserve P this n ?s1) (\<lambda>_ s.
      and_then (construct_at (m_data (obj s this)) (unat (m_size (obj s this))) x s) (\<lambda>_ s.
      unlock P this (upd this (\<lambda>v. v\<lparr>m_size := m_size v + 1\<rparr>) s)))"
    unfolding assms(3) using lv mx assms(2)
    by (simp add: push_back_def lock_ok split del: if_split cong: if_cong)
  show ?thesis
    unfolding pb s2(1)
    using lv mx assms(2) s2(2-5) ob2 lv2 k len eqv
    by (simp add: unlock_ok construct_at_def fun_eq_iff)
qed

lemma push_back_oom_new:
  assumes "valid s this" "m_size (obj s this) = m_capacity (obj s this)"
    and "n = (if m_capacity (obj s this) = 0 then 1 else m_capacity (obj s this) * 2)"
    and "m_capacity (obj s this) < n" "\<not> unat n \<le> avail s"
    and "AllocPolicy P = NewAllocator"
  shows "push_back P this (Object x) s =
    Throws (upd this (\<lambda>v. v\<lparr>m_mutex := (ThreadPolicy P = MultiThreaded)\<rparr>) s)"
proof -
  have lv: "live this s" and mx: "\<not> m_mutex (obj s this)"
    using assms(1) by (simp_all add: valid_live) (simp_all add: valid_def)
  let ?s1 = "upd this (\<lambda>v. v\<lparr>m_mutex := (ThreadPolicy P = MultiThreaded)\<rparr>) s"
  have pb: "push_back P this (Object x) s =
      and_then (reserve P this n ?s1) (\<lambda>_ s.
      and_then (construct_at (m_data (obj s this)) (unat (m_size (obj s this))) x s) (\<lambda>_ s.
      unlock P this (upd this (\<lambda>v. v\<lparr>m_size := m_size v + 1\<rparr>) s)))"
    unfolding assms(3) using lv mx assms(2)
    by (simp add: push_back_def lock_ok split del: if_split cong: if_cong)
  have "reserve P this n ?s1 = Throws ?s1"
    by (rule reserve_oom_new) (use lv assms(4-6) in simp_all)
  then show ?thesis unfolding pb by simp
qed

lemma push_back_stuck:
  assumes "valid s this" "m_size (obj s this) = m_capacity (obj s this)"
    and "n = (if m_capacity (obj s this) = 0 then 1 else m_capacity (obj s this) * 2)"
    and "\<not> (m_capacity (obj s this) < n \<and> unat n \<le> avail s)"
  shows "push_back P this (Object x) s \<noteq> Returns () s'"
proof -
  have lv: "live this s" and mx: "\<not> m_mutex (obj s this)" and w: "well_formed s this"
    using assms(1) by (simp_all add: valid_live) (simp_all add: valid_def)
  let ?s1 = "upd this (\<lambda>v. v\<lparr>m_mutex := (ThreadPolicy P = MultiThreaded)\<rparr>) s"
  have w1: "well_formed ?s1 this" and lv1: "live this ?s1" using w lv by simp_all
  have pb: "push_back P this (Object x) s =
      and_then (reserve P this n ?s1) (\<lambda>_ s.
      and_then (construct_at (m_data (obj s this)) (unat (m_size (obj s this))) x s) (\<lambda>_ s.
      unlock P this (upd this (\<lambda>v. v\<lparr>m_size := m_size v + 1\<rparr>) s)))"
    unfolding assms(3) using lv mx assms(2)
    by (simp add: push_back_def lock_ok split del: if_split cong: if_cong)
  show ?thesis
  proof (cases "m_capacity (obj s this) < n")
    case False
    then have le: "n \<le> m_capacity (obj ?s1 this)" by simp
    have r: "reserve P this n ?s1 = Returns () ?s1"
      by (rule reserve_noop [OF lv1 le])
    from w have "construct_at (m_data (obj ?s1 this)) (unat (m_size (obj ?s1 this))) x ?s1 = Undefined"
    proof (cases rule: well_formed_cases)
      case (null v)
      then show ?thesis by (simp add: obj_def construct_at_def)
    next
      case (buf v a buf)
      then show ?thesis using assms(2) by (simp add: obj_def construct_at_def)
    qed
    then show ?thesis unfolding pb r by simp
  next
    case True
    with assms(4) have oom: "\<not> unat n \<le> avail ?s1" by simp
    have c1: "m_capacity (obj ?s1 this) < n" using True by simp
    show ?thesis
    proof (cases "AllocPolicy P")
      case NewAllocator
      have "reserve P this n ?s1 = Throws ?s1"
        by (rule reserve_oom_new [OF lv1 c1 oom NewAllocator])
      then show ?thesis unfolding pb by simp
    next
      case MallocAllocator
      show ?thesis
      proof (cases "m_size (obj s this) = 0")
        case False
        then have "m_size (obj ?s1 this) \<noteq> 0" by simp
        from reserve_oom_malloc_populated [OF w1 c1 oom MallocAllocator this]
        show ?thesis unfolding pb by simp
      next
        case True
        then have "m_size (obj ?s1 this) = 0" by simp
        from reserve_oom_malloc_empty [OF w1 c1 oom MallocAllocator this]
        obtain s2 where "reserve P this n ?s1 = Returns () s2"
          "objects s2 = (objects ?s1)(this \<mapsto> (obj ?s1 this)\<lparr>m_data := nullptr, m_capacity := n\<rparr>)"
          by blast
        then show ?thesis unfolding pb by (simp add: obj_def construct_at_def)
      qed
    qed
  qed
qed

lemma take_Suc_pushed:
  assumes "length xs = k" "0 < m"
  shows "take (Suc k) ((xs @ replicate m y)[k := v]) = xs @ [v]"
  using assms by (cases m) (simp_all add: list_update_append)

lemma take_Suc_update:
  assumes "k < length xs"
  shows "take (Suc k) (xs[k := v]) = take k xs @ [v]"
  using assms by (simp add: take_Suc_conv_app_nth)

lemma valid_bufferI:
  assumes "objects s this = Some v" "\<not> m_mutex v" "m_data v = Ptr a"
    and "buffer s (Ptr a) = Some buf" "length buf = unat (m_capacity v)"
    and "unat (m_size v) \<le> length buf" "0 < length buf"
    and "list_all (\<lambda>x. x \<noteq> None) (take (unat (m_size v)) buf)"
  shows "valid s this"
proof -
  have "m_size v \<le> m_capacity v" using assms(5,6) by (simp add: word_le_nat_alt)
  moreover have "m_capacity v \<noteq> 0" using assms(5,7) by (auto simp: unat_eq_0)
  ultimately show ?thesis
    using assms by (simp add: valid_def well_formed_def storage_ok_def obj_def)
qed

lemma elements_bufferI:
  assumes "objects s this = Some v" "buffer s (m_data v) = Some buf"
  shows "elements s this = map the (take (unat (m_size v)) buf)"
  using assms by (simp add: elements_def slots_def obj_def)

lemma push_back_effect:
  assumes "valid s this" "push_back P this (Object x) s = Returns () s'"
  shows "valid s' this"
    and "elements s' this = elements s this @ [x]"
    and "unat (m_size (obj s' this)) = Suc (unat (m_size (obj s this)))"
    and "m_capacity (obj s' this) =
      (if m_size (obj s this) = m_capacity (obj s this)
       then grown (m_capacity (obj s this)) else m_capacity (obj s this))"
    and "m_size (obj s this) = m_capacity (obj s this) \<Longrightarrow>
      m_capacity (obj s this) < grown (m_capacity (obj s this)) \<and>
      unat (grown (m_capacity (obj s this))) \<le> avail s"
    and "avail s' + unat (m_capacity (obj s' this)) = avail s + unat (m_capacity (obj s this))"
    and "\<And>that. that \<noteq> this \<Longrightarrow> objects s' that = objects s that"
    and "\<And>q. q \<noteq> m_data (obj s this) \<Longrightarrow> buffer s q \<noteq> None \<Longrightarrow> buffer s' q = buffer s q"
    and "m_data (obj s' this) = m_data (obj s this) \<or> buffer s (m_data (obj s' this)) = None"
proof -
  have lv: "live this s" and mx: "\<not> m_mutex (obj s this)" and w: "well_formed s this"
    using assms(1) by (simp_all add: valid_live) (simp_all add: valid_def)
  let ?v = "obj s this"
  let ?k = "unat (m_size ?v)"
  have ov: "objects s this = Some ?v" using lv by (auto simp: live_def obj_def)
  have len: "length (slots s this) = ?k" and all: "list_all (\<lambda>x. x \<noteq> None) (slots s this)"
    using well_formed_slots [OF w] by simp_all
  have "valid s' this \<and> elements s' this = elements s this @ [x] \<and>
    unat (m_size (obj s' this)) = Suc ?k \<and>
    m_capacity (obj s' this) =
      (if m_size ?v = m_capacity ?v then grown (m_capacity ?v) else m_capacity ?v) \<and>
    (m_size ?v = m_capacity ?v \<longrightarrow>
      m_capacity ?v < grown (m_capacity ?v) \<and> unat (grown (m_capacity ?v)) \<le> avail s) \<and>
    avail s' + unat (m_capacity (obj s' this)) = avail s + unat (m_capacity ?v) \<and>
    (\<forall>that. that \<noteq> this \<longrightarrow> objects s' that = objects s that) \<and>
    (\<forall>q. q \<noteq> m_data ?v \<longrightarrow> buffer s q \<noteq> None \<longrightarrow> buffer s' q = buffer s q)"
  proof (cases "m_size ?v = m_capacity ?v")
    case False
    from push_back_room [OF assms(1) False, of P x] assms(2)
    have s': "objects s' = (objects s)(this \<mapsto> ?v\<lparr>m_size := m_size ?v + 1\<rparr>)"
      "avail s' = avail s"
      "buffer s' = (buffer s)(m_data ?v \<mapsto> (storage s this)[?k := Some x])"
      by auto
    from w show ?thesis
    proof (cases rule: well_formed_cases)
      case (null v)
      then show ?thesis using False by (simp add: obj_def)
    next
      case (buf v a buf)
      have ob: "?v = v" using buf(1) by (simp add: obj_def)
      have k: "?k < length buf" using buf(5,6) False ob by (simp add: size_less_capacity)
      have lt: "m_size v < m_capacity v" using buf(6) False ob by simp
      have inc: "unat (m_size v + 1) = Suc (unat (m_size v))" by (rule unat_inc [OF lt])
      have st: "storage s this = buf" using buf ob by (simp add: storage_def)
      have sl: "slots s this = take ?k buf" using buf ob by (simp add: slots_def)
      have o': "objects s' this = Some (v\<lparr>m_size := m_size v + 1\<rparr>)"
        and b': "buffer s' (Ptr a) = Some (buf[?k := Some x])"
        using s' ob st buf(2) by simp_all
      have tk: "take (Suc ?k) (buf[?k := Some x]) = take ?k buf @ [Some x]"
        by (rule take_Suc_update [OF k])
      have v': "valid s' this"
        by (rule valid_bufferI [OF o' _ _ b'])
           (use buf mx ob k inc tk all sl in \<open>simp_all\<close>)
      have e': "elements s' this = elements s this @ [x]"
        using elements_bufferI [OF o', of "buf[?k := Some x]"] b' buf(2) inc ob tk sl
        by (simp add: elements_def)
      show ?thesis
        using v' e' s' False inc ob buf(2) by (auto simp: obj_def)
    qed
  next
    case True
    let ?n = "grown (m_capacity ?v)"
    have n: "?n = (if m_capacity ?v = 0 then 1 else m_capacity ?v * 2)" by (simp add: grown_def)
    have ok: "m_capacity ?v < ?n \<and> unat ?n \<le> avail s"
      using push_back_stuck [OF assms(1) True n, of P x s'] assms(2) by blast
    from push_back_grow [OF assms(1) True n, of P x] ok assms(2)
    have s': "objects s' = (objects s)(this \<mapsto> ?v\<lparr>m_data := Ptr (length (heap s)),
         m_capacity := ?n, m_size := m_size ?v + 1\<rparr>)"
      "avail s' = avail s - unat ?n + unat (m_capacity ?v)"
      "buffer s' = (buffer s)(m_data ?v := None, Ptr (length (heap s)) \<mapsto>
           (slots s this @ replicate (unat ?n - ?k) None)[?k := Some x])"
      by auto
    let ?buf = "(slots s this @ replicate (unat ?n - ?k) None)[?k := Some x]"
    let ?v' = "?v\<lparr>m_data := Ptr (length (heap s)), m_capacity := ?n, m_size := m_size ?v + 1\<rparr>"
    have kn: "?k < unat ?n" using ok True by (simp add: word_less_nat_alt)
    have lt: "m_size ?v < ?n" using ok True by simp
    have inc: "unat (m_size ?v + 1) = Suc ?k" by (rule unat_inc [OF lt])
    have o': "objects s' this = Some ?v'" and b': "buffer s' (Ptr (length (heap s))) = Some ?buf"
      using s' by simp_all
    have tk: "take (Suc ?k) ?buf = slots s this @ [Some x]"
      by (rule take_Suc_pushed [OF len]) (use kn in simp)
    have v': "valid s' this"
      by (rule valid_bufferI [OF o' _ _ b'])
         (use mx len kn inc tk all in \<open>simp_all\<close>)
    have e': "elements s' this = elements s this @ [x]"
      using elements_bufferI [OF o', of ?buf] b' inc tk
      by (simp add: elements_def)
    have fr: "buffer s q \<noteq> None \<Longrightarrow> q \<noteq> Ptr (length (heap s))" for q
      by auto
    show ?thesis
      using v' e' s' True inc ok fr by (auto simp: obj_def)
  qed
  moreover have "m_data (obj s' this) = m_data ?v \<or> buffer s (m_data (obj s' this)) = None"
  proof (cases "m_size ?v = m_capacity ?v")
    case False
    from push_back_room [OF assms(1) False, of P x] assms(2)
    have "objects s' = (objects s)(this \<mapsto> ?v\<lparr>m_size := m_size ?v + 1\<rparr>)"
      by auto
    then show ?thesis by (simp add: obj_def)
  next
    case True
    let ?n = "grown (m_capacity ?v)"
    have n: "?n = (if m_capacity ?v = 0 then 1 else m_capacity ?v * 2)" by (simp add: grown_def)
    have ok: "m_capacity ?v < ?n \<and> unat ?n \<le> avail s"
      using push_back_stuck [OF assms(1) True n, of P x s'] assms(2) by blast
    from push_back_grow [OF assms(1) True n, of P x] ok assms(2)
    have "objects s' = (objects s)(this \<mapsto> ?v\<lparr>m_data := Ptr (length (heap s)),
         m_capacity := ?n, m_size := m_size ?v + 1\<rparr>)"
      by auto
    then show ?thesis by (simp add: obj_def)
  qed
  ultimately show "valid s' this"
    and "elements s' this = elements s this @ [x]"
    and "unat (m_size (obj s' this)) = Suc (unat (m_size (obj s this)))"
    and "m_capacity (obj s' this) =
      (if m_size (obj s this) = m_capacity (obj s this)
       then grown (m_capacity (obj s this)) else m_capacity (obj s this))"
    and "m_size (obj s this) = m_capacity (obj s this) \<Longrightarrow>
      m_capacity (obj s this) < grown (m_capacity (obj s this)) \<and>
      unat (grown (m_capacity (obj s this))) \<le> avail s"
    and "avail s' + unat (m_capacity (obj s' this)) = avail s + unat (m_capacity (obj s this))"
    and "\<And>that. that \<noteq> this \<Longrightarrow> objects s' that = objects s that"
    and "\<And>q. q \<noteq> m_data (obj s this) \<Longrightarrow> buffer s q \<noteq> None \<Longrightarrow> buffer s' q = buffer s q"
    and "m_data (obj s' this) = m_data (obj s this) \<or> buffer s (m_data (obj s' this)) = None"
    by blast+
qed

lemma deref_cases:
  "deref r s = Undefined \<or> (\<exists>x. deref r s = Returns x s)"
  by (cases r) (auto simp: deref_def load_def read_at_def split: option.splits)

lemma push_back_ref_cases:
  assumes "push_back P this r s = Returns () s'"
  shows "\<exists>x. push_back P this (Object x) s = Returns () s'"
proof -
  from assms have lv: "live this s" by (auto simp: push_back_def split: if_splits)
  from assms lv obtain s1 s2 x s3 where st:
    "lock P this s = Returns () s1"
    "(if m_size (obj s1 this) = m_capacity (obj s1 this)
      then reserve P this
         (if m_capacity (obj s1 this) = 0 then 1 else m_capacity (obj s1 this) * 2) s1
      else Returns () s1) = Returns () s2"
    "deref r s2 = Returns x s3"
    "and_then (construct_at (m_data (obj s3 this)) (unat (m_size (obj s3 this))) x s3) (\<lambda>_ s.
     and_then (Returns () (upd this (\<lambda>v. v\<lparr>m_size := m_size v + 1\<rparr>) s)) (\<lambda>_ s.
     unlock P this s)) = Returns () s'"
    unfolding push_back_def by (simp add: and_then_Returns_iff split del: if_split) blast
  from deref_cases [of r s2] st(3) have "s3 = s2" by auto
  then have "push_back P this (Object x) s = Returns () s'"
    unfolding push_back_def using lv st(1,2,4) by (simp split del: if_split)
  then show ?thesis ..
qed

lemma push_back_effect_ref:
  assumes "valid s this" "push_back P this r s = Returns () s'"
  shows "valid s' this"
    and "\<exists>x. elements s' this = elements s this @ [x]"
    and "unat (m_size (obj s' this)) = Suc (unat (m_size (obj s this)))"
    and "m_capacity (obj s' this) =
      (if m_size (obj s this) = m_capacity (obj s this)
       then grown (m_capacity (obj s this)) else m_capacity (obj s this))"
    and "m_size (obj s this) = m_capacity (obj s this) \<Longrightarrow>
      m_capacity (obj s this) < grown (m_capacity (obj s this)) \<and>
      unat (grown (m_capacity (obj s this))) \<le> avail s"
    and "avail s' + unat (m_capacity (obj s' this)) = avail s + unat (m_capacity (obj s this))"
    and "\<And>that. that \<noteq> this \<Longrightarrow> objects s' that = objects s that"
    and "\<And>q. q \<noteq> m_data (obj s this) \<Longrightarrow> buffer s q \<noteq> None \<Longrightarrow> buffer s' q = buffer s q"
    and "m_data (obj s' this) = m_data (obj s this) \<or> buffer s (m_data (obj s' this)) = None"
proof -
  from push_back_ref_cases [OF assms(2)]
  obtain x where x: "push_back P this (Object x) s = Returns () s'" ..
  note e = push_back_effect [OF assms(1) x]
  show "valid s' this" by (rule e(1))
  show "\<exists>x. elements s' this = elements s this @ [x]" using e(2) by blast
  show "unat (m_size (obj s' this)) = Suc (unat (m_size (obj s this)))" by (rule e(3))
  show "m_capacity (obj s' this) =
      (if m_size (obj s this) = m_capacity (obj s this)
       then grown (m_capacity (obj s this)) else m_capacity (obj s this))" by (rule e(4))
  show "m_size (obj s this) = m_capacity (obj s this) \<Longrightarrow>
      m_capacity (obj s this) < grown (m_capacity (obj s this)) \<and>
      unat (grown (m_capacity (obj s this))) \<le> avail s" by (rule e(5))
  show "avail s' + unat (m_capacity (obj s' this)) = avail s + unat (m_capacity (obj s this))"
    by (rule e(6))
  show "\<And>that. that \<noteq> this \<Longrightarrow> objects s' that = objects s that" by (rule e(7))
  show "\<And>q. q \<noteq> m_data (obj s this) \<Longrightarrow> buffer s q \<noteq> None \<Longrightarrow> buffer s' q = buffer s q"
    by (rule e(8))
  show "m_data (obj s' this) = m_data (obj s this) \<or> buffer s (m_data (obj s' this)) = None"
    by (rule e(9))
qed

subsection \<open>Indexed access and pop_back\<close>

lemma unlock_after_lock:
  assumes "live this s" "\<not> m_mutex (obj s this)"
  shows "upd this (\<lambda>v. v\<lparr>m_mutex := False\<rparr>) (upd this (\<lambda>v. v\<lparr>m_mutex := b\<rparr>) s) = s"
proof -
  from assms obtain v where v: "objects s this = Some v" "\<not> m_mutex v"
    by (auto simp: live_def obj_def)
  then have "v\<lparr>m_mutex := False\<rparr> = v" by simp
  then have "(objects s)(this \<mapsto> v\<lparr>m_mutex := False\<rparr>) = objects s"
    using v(1) by (auto simp: fun_eq_iff)
  then show ?thesis using v(1) by (simp add: upd_def obj_def)
qed

lemma subscript_ok:
  assumes "valid s this" "buffer s (m_data (obj s this)) = Some buf" "unat index < length buf"
  shows "subscript P this index s = Returns (m_data (obj s this), unat index) s"
proof -
  have lv: "live this s" and mx: "\<not> m_mutex (obj s this)"
    using assms(1) by (simp_all add: valid_live) (simp_all add: valid_def)
  show ?thesis
    using lv mx assms(2,3)
    by (simp add: subscript_def lock_ok unlock_ok element_ref_def unlock_after_lock)
qed

lemma valid_storage:
  assumes "valid s this" "i < unat (m_size (obj s this))"
  shows "\<exists>buf x. buffer s (m_data (obj s this)) = Some buf \<and> i < length buf \<and>
           buf ! i = Some x \<and> elements s this ! i = x"
proof -
  have w: "well_formed s this" using assms(1) by (simp add: valid_def)
  from w show ?thesis
  proof (cases rule: well_formed_cases)
    case (null v)
    then show ?thesis using assms(2) by (simp add: obj_def)
  next
    case (buf v a buf)
    have ob: "obj s this = v" using buf(1) by (simp add: obj_def)
    have k: "i < length buf" using assms(2) buf(5,6) ob by (simp add: word_le_nat_alt)
    have "buf ! i \<noteq> None" using list_all_take_nth [OF buf(7) _ k] assms(2) ob by simp
    then obtain x where "buf ! i = Some x" by auto
    then show ?thesis using buf(2,4) ob k assms(2)
      by (simp add: elements_def slots_def)
  qed
qed

lemma index_read_ok:
  assumes "valid s this" "index < m_size (obj s this)"
  shows "index_read P this index s = Returns (elements s this ! unat index) s"
proof -
  have "unat index < unat (m_size (obj s this))" using assms(2) by (simp add: word_less_nat_alt)
  from valid_storage [OF assms(1) this]
  obtain buf x where b: "buffer s (m_data (obj s this)) = Some buf" "unat index < length buf"
    "buf ! unat index = Some x" "elements s this ! unat index = x"
    by blast
  show ?thesis
    using subscript_ok [OF assms(1) b(1,2), of P] b
    by (simp add: index_read_def load_def read_at_def)
qed

lemma index_write_ok:
  assumes "valid s this" "index < m_size (obj s this)"
  shows "index_write P this index x s =
    Returns () (set_slot (m_data (obj s this)) (unat index) (Some x) s)"
proof -
  have "unat index < unat (m_size (obj s this))" using assms(2) by (simp add: word_less_nat_alt)
  from valid_storage [OF assms(1) this]
  obtain buf y where b: "buffer s (m_data (obj s this)) = Some buf" "unat index < length buf"
    "buf ! unat index = Some y"
    by blast
  show ?thesis
    using subscript_ok [OF assms(1) b(1,2), of P] b
    by (simp add: index_write_def store_def read_at_def)
qed

lemma pop_back_empty:
  assumes "valid s this" "m_size (obj s this) = 0"
  shows "pop_back P this s = Returns () s"
proof -
  have lv: "live this s" and mx: "\<not> m_mutex (obj s this)"
    using assms(1) by (simp_all add: valid_live) (simp_all add: valid_def)
  show ?thesis
    using lv mx assms(2)
    by (simp add: pop_back_def lock_ok unlock_ok unlock_after_lock)
qed

lemma pop_back_nonempty:
  assumes "valid s this" "m_size (obj s this) \<noteq> 0"
  shows "\<exists>s'. pop_back P this s = Returns () s' \<and>
      objects s' = (objects s)(this \<mapsto> (obj s this)\<lparr>m_size := m_size (obj s this) - 1\<rparr>) \<and>
      avail s' = avail s \<and> length (heap s') = length (heap s) \<and>
      buffer s' = (buffer s)(m_data (obj s this) \<mapsto>
         (storage s this)[unat (m_size (obj s this)) - 1 := None])"
proof -
  have lv: "live this s" and mx: "\<not> m_mutex (obj s this)"
    using assms(1) by (simp_all add: valid_live) (simp_all add: valid_def)
  let ?v = "obj s this"
  have pos: "0 < m_size ?v" using assms(2) by (simp add: word_greater_zero_iff)
  have dec: "unat (m_size ?v - 1) = unat (m_size ?v) - 1" by (rule unat_dec [OF pos])
  have "unat (m_size ?v) - 1 < unat (m_size ?v)"
    using pos by (simp add: word_less_nat_alt)
  from valid_storage [OF assms(1) this]
  obtain buf y where b: "buffer s (m_data ?v) = Some buf" "unat (m_size ?v) - 1 < length buf"
    "buf ! (unat (m_size ?v) - 1) = Some y"
    by blast
  have eqv: "?v\<lparr>m_mutex := b, m_size := z, m_mutex := False\<rparr> = ?v\<lparr>m_size := z\<rparr>" for b z
    using mx by simp
  show ?thesis
    using lv mx pos dec b eqv
    by (simp add: pop_back_def lock_ok unlock_ok destroy_at_def read_at_def storage_def
        fun_eq_iff)
qed

subsection \<open>Runs of push_back\<close>

lemma valid_init: "valid (init this s) this"
  by (simp add: valid_def well_formed_def storage_ok_def obj_def)

lemma elements_init: "elements (init this s) this = []"
  by (simp add: elements_def slots_def obj_def)

lemma push_all_effect:
  assumes "valid s this" "push_all P this (map Object vs) s = Returns () s'"
  shows "valid s' this \<and> elements s' this = elements s this @ vs \<and>
         unat (m_size (obj s' this)) = unat (m_size (obj s this)) + length vs"
  using assms
proof (induction vs arbitrary: s)
  case Nil
  then show ?case by simp
next
  case (Cons v vs)
  from Cons.prems(2) obtain s1 where s1: "push_back P this (Object v) s = Returns () s1"
    "push_all P this (map Object vs) s1 = Returns () s'"
    by (auto simp: and_then_Returns_iff)
  note e = push_back_effect [OF Cons.prems(1) s1(1)]
  from Cons.IH [OF e(1) s1(2)] e(2,3) show ?case by simp
qed

lemma double_fits:
  fixes c :: size_t
  assumes "unat c < 2 ^ 63" "c \<noteq> 0"
  shows "c < c * 2" and "unat (c * 2) = 2 * unat c"
proof -
  have "unat c * 2 < 2 ^ 64" using assms(1) by simp
  then show u: "unat (c * 2) = 2 * unat c" by (simp add: unat_word_ariths)
  have "0 < unat c" using assms(2) by (simp add: unat_gt_0)
  then show "c < c * 2" using u by (simp add: word_less_nat_alt)
qed

lemma push_all_succeeds:
  assumes "valid s this"
    and "3 * (unat (m_size (obj s this)) + length vs) \<le> avail s + unat (m_capacity (obj s this))"
    and "unat (m_size (obj s this)) + length vs \<le> 2 ^ 63"
  shows "\<exists>s'. push_all P this (map Object vs) s = Returns () s'"
  using assms
proof (induction vs arbitrary: s)
  case Nil
  then show ?case by simp
next
  case (Cons v vs)
  let ?c = "m_capacity (obj s this)"
  have "\<exists>s1. push_back P this (Object v) s = Returns () s1"
  proof (cases "m_size (obj s this) = ?c")
    case False
    from push_back_room [OF Cons.prems(1) False, of P v] show ?thesis by blast
  next
    case True
    let ?n = "if ?c = 0 then 1 else ?c * 2"
    have "?c < ?n \<and> unat ?n \<le> avail s"
    proof (cases "?c = 0")
      case z: True
      then show ?thesis using Cons.prems(2) True by simp
    next
      case nz: False
      have "unat ?c < 2 ^ 63" using Cons.prems(3) True by simp
      from double_fits [OF this nz] show ?thesis using Cons.prems(2) True nz by simp
    qed
    with push_back_grow [OF Cons.prems(1) True refl, of P v] show ?thesis by blast
  qed
  then obtain s1 where s1: "push_back P this (Object v) s = Returns () s1" by blast
  note e = push_back_effect [OF Cons.prems(1) s1]
  have "\<exists>s'. push_all P this (map Object vs) s1 = Returns () s'"
    by (rule Cons.IH [OF e(1)]) (use e(3,6) Cons.prems(2,3) in simp_all)
  then show ?case using s1 by simp
qed

lemma of_nat_index:
  fixes w :: size_t
  assumes "i < unat w"
  shows "of_nat i < w" and "unat (of_nat i :: size_t) = i"
proof -
  have "unat w < 2 ^ 64" using unsigned_less [of w] by simp
  then have "i < 2 ^ 64" using assms by simp
  then show u: "unat (of_nat i :: size_t) = i" by (simp add: unat_of_nat)
  then show "of_nat i < w" using assms by (simp add: word_less_nat_alt)
qed

lemma growth_events_law:
  assumes "valid s this" "push_all P this rs s = Returns () s'"
    and "doubling_law k (m_capacity (obj s this))"
  shows "doubling_law (k + growth_events P this rs s) (m_capacity (obj s' this))"
  using assms
proof (induction rs arbitrary: s k)
  case Nil
  then show ?case by simp
next
  case (Cons r rs)
  let ?c = "m_capacity (obj s this)"
  from Cons.prems(2) obtain s1 where s1: "push_back P this r s = Returns () s1"
    "push_all P this rs s1 = Returns () s'"
    by (auto simp: and_then_Returns_iff)
  note e = push_back_effect_ref [OF Cons.prems(1) s1(1)]
  show ?case
  proof (cases "m_size (obj s this) = ?c")
    case False
    then have "doubling_law k (m_capacity (obj s1 this))" using e(4) Cons.prems(3) by simp
    from Cons.IH [OF e(1) s1(2) this] show ?thesis
      using False s1(1) by (simp add: size'_def capacity_def)
  next
    case True
    have lt: "?c < grown ?c" using e(5) [OF True] by simp
    have "doubling_law (Suc k) (grown ?c)"
    proof (cases "k = 0")
      case True
      then show ?thesis using Cons.prems(3) by (simp add: doubling_law_def grown_def)
    next
      case False
      then have c: "unat ?c = 2 ^ (k - 1)" using Cons.prems(3) by (simp add: doubling_law_def)
      then have nz: "?c \<noteq> 0" by (auto simp: unat_eq_0)
      then have "?c < ?c * 2" using lt by (simp add: grown_def)
      from unat_double [OF this] c nz False show ?thesis
        by (cases k) (simp_all add: doubling_law_def grown_def)
    qed
    then have "doubling_law (Suc k) (m_capacity (obj s1 this))" using e(4) True by simp
    from Cons.IH [OF e(1) s1(2) this] show ?thesis
      using True s1(1) by (simp add: size'_def capacity_def)
  qed
qed

subsection \<open>The test states\<close>

lemma growth_events_test:
  "growth_events test_policies 1 [Object 10, Object 20, Object (30 :: int)] (init 1 fresh_state) = 3"
  by code_simp

lemma v1_state_valid: "valid v1_state 1"
  by (simp add: valid_def well_formed_def storage_ok_def v1_state_def obj_def buffer_def)

lemma full_state_valid: "valid full_state 1"
  by (simp add: valid_def well_formed_def storage_ok_def full_state_def obj_def buffer_def)

lemma push_back_full_state: "push_back test_policies 1 (Object 30) full_state = Returns () v1_state"
  by (simp add: push_back_def reserve_def live_def obj_def upd_def lock_def unlock_def
      allocate_def deallocate_def construct_at_def buffer_def set_slot_def read_at_def
      destroy_at_def upt_conv_Cons test_policies_def full_state_def v1_state_def)
     (simp add: eval_nat_numeral)

subsection \<open>pop_back, continued\<close>

lemma pop_back_effect:
  assumes "valid s this" "m_size (obj s this) \<noteq> 0"
  shows "\<exists>s'. pop_back P this s = Returns () s' \<and>
      objects s' = (objects s)(this \<mapsto> (obj s this)\<lparr>m_size := m_size (obj s this) - 1\<rparr>) \<and>
      avail s' = avail s \<and> length (heap s') = length (heap s) \<and>
      buffer s' = (buffer s)(m_data (obj s this) \<mapsto>
         (storage s this)[unat (m_size (obj s this)) - 1 := None]) \<and>
      unat (m_size (obj s' this)) = unat (m_size (obj s this)) - 1 \<and>
      elements s' this = butlast (elements s this) \<and> valid s' this"
proof -
  let ?v = "obj s this"
  let ?k = "unat (m_size ?v)"
  have mx: "\<not> m_mutex ?v" and w: "well_formed s this"
    using assms(1) by (simp_all add: valid_def)
  from pop_back_nonempty [OF assms, of P]
  obtain s' where s': "pop_back P this s = Returns () s'"
    "objects s' = (objects s)(this \<mapsto> ?v\<lparr>m_size := m_size ?v - 1\<rparr>)"
    "avail s' = avail s" "length (heap s') = length (heap s)"
    "buffer s' = (buffer s)(m_data ?v \<mapsto> (storage s this)[?k - 1 := None])"
    by blast
  have pos: "0 < m_size ?v" using assms(2) by (simp add: word_greater_zero_iff)
  have dec: "unat (m_size ?v - 1) = ?k - 1" by (rule unat_dec [OF pos])
  have kpos: "0 < ?k" using pos by (simp add: word_less_nat_alt)
  from w have "elements s' this = butlast (elements s this) \<and> valid s' this"
  proof (cases rule: well_formed_cases)
    case (null v)
    then show ?thesis using assms(2) by (simp add: obj_def)
  next
    case (buf v a buf)
    have ob: "?v = v" using buf(1) by (simp add: obj_def)
    have k: "?k \<le> length buf" using buf(5,6) ob by (simp add: word_le_nat_alt)
    have st: "storage s this = buf" using buf ob by (simp add: storage_def)
    have o': "objects s' this = Some (v\<lparr>m_size := m_size v - 1\<rparr>)"
      and b': "buffer s' (Ptr a) = Some (buf[?k - 1 := None])"
      using s' ob st buf(2) by simp_all
    have tk: "take (?k - 1) (buf[?k - 1 := None]) = take (?k - 1) buf" by simp
    have bl: "butlast (take ?k buf) = take (?k - 1) buf" using k by (simp add: butlast_take)
    have all: "list_all (\<lambda>x. x \<noteq> None) (take (?k - 1) buf)"
      using list_all_take_le [OF buf(7), of "?k - 1"] ob by simp
    have v': "valid s' this"
      by (rule valid_bufferI [OF o' _ _ b'])
         (use buf mx ob k kpos dec tk all in \<open>simp_all\<close>)
    have "elements s' this = map the (take (?k - 1) buf)"
      using elements_bufferI [OF o', of "buf[?k - 1 := None]"] b' buf(2) dec ob tk by simp
    moreover have "elements s this = map the (take ?k buf)"
      using elements_bufferI [OF buf(1), of buf] buf(2,4) ob by simp
    ultimately show ?thesis using v' bl [symmetric] by (simp add: map_butlast)
  qed
  then show ?thesis using s' dec by (auto simp: obj_def)
qed

subsection \<open>Moving\<close>

lemma moved_from_fields [simp]:
  "m_data moved_from = nullptr" "m_size moved_from = 0" "m_capacity moved_from = 0"
  "\<not> m_mutex moved_from"
  by (simp_all add: moved_from_def)

lemma obj_init [simp]:
  "obj (init this s) that = (if that = this then moved_from else obj s that)"
  and live_init [simp]: "live that (init this s) \<longleftrightarrow> that = this \<or> live that s"
  by (simp_all add: obj_def live_def moved_from_def)

lemma Vector_move_ok:
  assumes "valid s A" "B \<noteq> A"
  shows "Vector_move P B A s =
    Returns () (s\<lparr>objects := (objects s)(B \<mapsto> obj s A, A \<mapsto> moved_from)\<rparr>)"
proof -
  have lv: "live A s" and mx: "\<not> m_mutex (obj s A)"
    using assms(1) by (simp_all add: valid_live) (simp_all add: valid_def)
  let ?b = "ThreadPolicy P = MultiThreaded"
  have eqB: "moved_from\<lparr>m_mutex := ?b, m_data := m_data (obj s A), m_size := m_size (obj s A),
      m_capacity := m_capacity (obj s A), m_mutex := False\<rparr> = obj s A"
    using mx by (simp add: moved_from_def)
  have eqA: "(obj s A)\<lparr>m_mutex := ?b, m_data := nullptr, m_size := 0, m_capacity := 0,
      m_mutex := False\<rparr> = moved_from"
    by (simp add: moved_from_def)
  have st: "upd B (\<lambda>v. v\<lparr>m_mutex := False\<rparr>)
     (upd A (\<lambda>v. v\<lparr>m_mutex := False\<rparr>)
       (upd A (\<lambda>v. v\<lparr>m_capacity := 0\<rparr>)
         (upd A (\<lambda>v. v\<lparr>m_size := 0\<rparr>)
           (upd A (\<lambda>v. v\<lparr>m_data := nullptr\<rparr>)
             (upd B (\<lambda>v. v\<lparr>m_capacity := m_capacity (obj s A)\<rparr>)
               (upd B (\<lambda>v. v\<lparr>m_size := m_size (obj s A)\<rparr>)
                 (upd B (\<lambda>v. v\<lparr>m_data := m_data (obj s A)\<rparr>)
                   (upd A (\<lambda>v. v\<lparr>m_mutex := ?b\<rparr>)
                     (upd B (\<lambda>v. v\<lparr>m_mutex := ?b\<rparr>) (init B s))))))))))
     = s\<lparr>objects := (objects s)(B \<mapsto> obj s A, A \<mapsto> moved_from)\<rparr>"
    using assms(2) eqA eqB
    by (simp add: upd_def init_def obj_def fun_eq_iff moved_from_def)
  show ?thesis
    using lv mx assms(2) st
    by (simp add: Vector_move_def Let_def lock_ok unlock_ok)
qed

text \<open>Tearing down the elements and the buffer of \<open>this\<close>, as both assignment operators
  do first (lines 166-171 and 217-222).\<close>

lemma teardown:
  assumes "well_formed s this"
  shows "\<exists>s'. and_then (for_loop [0 ..< unat (m_size (obj s this))] (\<lambda>i s.
                      destroy_at (m_data (obj s this)) i s) s) (\<lambda>_ s.
               if m_data (obj s this) \<noteq> nullptr
               then deallocate (m_data (obj s this)) s else Returns () s) = Returns () s' \<and>
          objects s' = objects s \<and>
          avail s' = avail s + unat (m_capacity (obj s this)) \<and>
          length (heap s') = length (heap s) \<and>
          buffer s' = (buffer s)(m_data (obj s this) := None)"
  using assms
proof (cases rule: well_formed_cases)
  case (null v)
  then show ?thesis by (simp add: obj_def fun_eq_iff)
next
  case (buf v a buf)
  have ob: "obj s this = v" using buf(1) by (simp add: obj_def)
  have k: "unat (m_size v) \<le> length buf" using buf(5,6) by (simp add: word_le_nat_alt)
  from destroy_loop [of s this "Ptr a" buf "unat (m_size v)"] ob buf k
  obtain s1 where s1:
    "for_loop [0 ..< unat (m_size v)] (\<lambda>i s. destroy_at (m_data (obj s this)) i s) s = Returns () s1"
    "objects s1 = objects s" "avail s1 = avail s" "length (heap s1) = length (heap s)"
    "buffer s1 = (buffer s)(Ptr a \<mapsto> replicate (unat (m_size v)) None @ drop (unat (m_size v)) buf)"
    by auto
  have ob1: "obj s1 this = v" using s1(2) buf(1) by (simp add: obj_def)
  show ?thesis
    using ob s1 ob1 buf k by (simp add: deallocate_def fun_eq_iff)
qed

lemma move_assign_ok:
  assumes "valid s A" "valid s B" "B \<noteq> A"
    and "m_data (obj s B) \<noteq> m_data (obj s A) \<or> m_data (obj s B) = nullptr"
  shows "\<exists>s'. move_assign P B A s = Returns () s' \<and>
      objects s' = (objects s)(B \<mapsto> obj s A, A \<mapsto> moved_from) \<and>
      avail s' = avail s + unat (m_capacity (obj s B)) \<and>
      length (heap s') = length (heap s) \<and>
      buffer s' = (buffer s)(m_data (obj s B) := None)"
proof -
  have lvA: "live A s" and mxA: "\<not> m_mutex (obj s A)"
    using assms(1) by (simp_all add: valid_live) (simp_all add: valid_def)
  have lvB: "live B s" and mxB: "\<not> m_mutex (obj s B)" and wB: "well_formed s B"
    using assms(2) by (simp_all add: valid_live) (simp_all add: valid_def)
  let ?b = "ThreadPolicy P = MultiThreaded"
  let ?s2 = "upd A (\<lambda>v. v\<lparr>m_mutex := ?b\<rparr>) (upd B (\<lambda>v. v\<lparr>m_mutex := ?b\<rparr>) s)"
  have ob2: "obj ?s2 B = (obj s B)\<lparr>m_mutex := ?b\<rparr>" "obj ?s2 A = (obj s A)\<lparr>m_mutex := ?b\<rparr>"
    using assms(3) by simp_all
  have w2: "well_formed ?s2 B"
    using wB lvB assms(3) by (simp add: well_formed_def obj_def live_def split: option.splits)
  from teardown [OF w2]
  obtain s3 where s3:
    "and_then (for_loop [0 ..< unat (m_size (obj ?s2 B))] (\<lambda>i s.
                      destroy_at (m_data (obj s B)) i s) ?s2) (\<lambda>_ s.
               if m_data (obj s B) \<noteq> nullptr
               then deallocate (m_data (obj s B)) s else Returns () s) = Returns () s3"
    "objects s3 = objects ?s2" "avail s3 = avail s + unat (m_capacity (obj s B))"
    "length (heap s3) = length (heap s)"
    "buffer s3 = (buffer s)(m_data (obj s B) := None)"
    using ob2 by auto
  have ob3: "obj s3 B = (obj s B)\<lparr>m_mutex := ?b\<rparr>" "obj s3 A = (obj s A)\<lparr>m_mutex := ?b\<rparr>"
    and lv3: "live A s3" "live B s3"
    using s3(2) ob2 lvA lvB by (simp_all add: obj_def live_def)
  have eqB: "(obj s B)\<lparr>m_mutex := ?b, m_data := m_data (obj s A), m_size := m_size (obj s A),
      m_capacity := m_capacity (obj s A), m_mutex := False\<rparr> = obj s A"
    using mxA by simp
  have eqA: "(obj s A)\<lparr>m_mutex := ?b, m_data := nullptr, m_size := 0, m_capacity := 0,
      m_mutex := False\<rparr> = moved_from"
    by (simp add: moved_from_def)
  have ma: "move_assign P B A s =
      and_then (and_then (for_loop [0 ..< unat (m_size (obj ?s2 B))] (\<lambda>i s.
                      destroy_at (m_data (obj s B)) i s) ?s2) (\<lambda>_ s.
               if m_data (obj s B) \<noteq> nullptr
               then deallocate (m_data (obj s B)) s else Returns () s)) (\<lambda>_ s.
      let s = upd B (\<lambda>v. v\<lparr>m_data := m_data (obj s A)\<rparr>) s;
          s = upd B (\<lambda>v. v\<lparr>m_size := m_size (obj s A)\<rparr>) s;
          s = upd B (\<lambda>v. v\<lparr>m_capacity := m_capacity (obj s A)\<rparr>) s;
          s = upd A (\<lambda>v. v\<lparr>m_data := nullptr\<rparr>) s;
          s = upd A (\<lambda>v. v\<lparr>m_size := 0\<rparr>) s;
          s = upd A (\<lambda>v. v\<lparr>m_capacity := 0\<rparr>) s
      in and_then (unlock P A s) (\<lambda>_ s. unlock P B s))"
    using lvA lvB mxA mxB assms(3)
    by (simp add: move_assign_def lock_ok and_then_assoc)
  show ?thesis
    unfolding ma s3(1)
    using s3(2-5) ob3 lv3 assms(3) eqA eqB
    by (simp add: Let_def unlock_ok fun_eq_iff)
qed

subsection \<open>Copying\<close>

text \<open>Allocating the fresh buffer and copy-constructing the elements of \<open>other\<close> into it,
  as the copy constructor and the copy assignment do (lines 148-153 and 176-181).\<close>

lemma copy_into:
  assumes "well_formed s other" "live this s" "this \<noteq> other"
    and "m_size (obj s this) = m_size (obj s other)"
    and "m_capacity (obj s this) = m_capacity (obj s other)"
    and "m_capacity (obj s other) \<noteq> 0" "unat (m_capacity (obj s other)) \<le> avail s"
  shows "\<exists>s'. and_then (allocate P (m_capacity (obj s this)) s) (\<lambda>p s.
                 let s = upd this (\<lambda>v. v\<lparr>m_data := p\<rparr>) s
                 in for_loop [0 ..< unat (m_size (obj s this))] (\<lambda>i s.
                      and_then (read_at (m_data (obj s other)) i s) (\<lambda>x s.
                      construct_at (m_data (obj s this)) i x s)) s) = Returns () s' \<and>
          objects s' = (objects s)(this \<mapsto> (obj s this)\<lparr>m_data := Ptr (length (heap s))\<rparr>) \<and>
          avail s' = avail s - unat (m_capacity (obj s other)) \<and>
          length (heap s') = Suc (length (heap s)) \<and>
          buffer s' = (buffer s)(Ptr (length (heap s)) \<mapsto>
             slots s other @
             replicate (unat (m_capacity (obj s other)) - unat (m_size (obj s other))) None)"
  using assms(1)
proof (cases rule: well_formed_cases)
  case (null v)
  then show ?thesis using assms(6) by (simp add: obj_def)
next
  case (buf u a buf)
  let ?L = "length (heap s)"
  let ?n = "m_capacity u"
  let ?k = "unat (m_size u)"
  let ?sa = "upd this (\<lambda>v. v\<lparr>m_data := Ptr ?L\<rparr>)
     (s\<lparr>heap := heap s @ [Some (replicate (unat ?n) None)], avail := avail s - unat ?n\<rparr>)"
  have ob: "obj s other = u" using buf(1) by (simp add: obj_def)
  have al: "allocate P (m_capacity (obj s this)) s = Returns (Ptr ?L)
      (s\<lparr>heap := heap s @ [Some (replicate (unat ?n) None)], avail := avail s - unat ?n\<rparr>)"
    using assms(5,7) ob by (simp add: allocate_def)
  have neq: "Ptr a \<noteq> Ptr ?L" using buf(4) by (auto simp: buffer_def split: if_splits)
  have k: "?k \<le> length buf" "?k \<le> unat ?n"
    using buf(5,6) by (simp_all add: word_le_nat_alt)
  have oa: "m_data (obj ?sa this) = Ptr ?L" "m_data (obj ?sa other) = Ptr a"
    "m_size (obj ?sa this) = m_size u"
    using assms(3,4) ob buf(2) by simp_all
  from copy_loop [of ?sa this "Ptr ?L" other "Ptr a" buf "replicate (unat ?n) None" ?k]
    oa(1,2) buf(4,7) neq k
  obtain s1 where s1:
    "for_loop [0 ..< ?k] (\<lambda>i s.
        and_then (read_at (m_data (obj s other)) i s) (\<lambda>x s.
        construct_at (m_data (obj s this)) i x s)) ?sa = Returns () s1"
    "objects s1 = objects ?sa" "avail s1 = avail s - unat ?n" "length (heap s1) = Suc ?L"
    "buffer s1 = (buffer s)(Ptr ?L \<mapsto> take ?k buf @ replicate (unat ?n - ?k) None)"
    by auto
  show ?thesis
    unfolding al
    using s1 oa(3) ob buf(2,4)
    by (simp add: Let_def slots_def)
qed

lemma copy_into_stuck:
  assumes "well_formed s other" "live this s" "this \<noteq> other"
    and "m_size (obj s this) = m_size (obj s other)"
    and "m_capacity (obj s this) = m_capacity (obj s other)"
    and "m_size (obj s other) \<noteq> 0" "\<not> unat (m_capacity (obj s other)) \<le> avail s"
  shows "and_then (allocate P (m_capacity (obj s this)) s) (\<lambda>p s.
                 let s = upd this (\<lambda>v. v\<lparr>m_data := p\<rparr>) s
                 in for_loop [0 ..< unat (m_size (obj s this))] (\<lambda>i s.
                      and_then (read_at (m_data (obj s other)) i s) (\<lambda>x s.
                      construct_at (m_data (obj s this)) i x s)) s) =
         (case AllocPolicy P of MallocAllocator \<Rightarrow> Undefined | NewAllocator \<Rightarrow> Throws s)"
  using assms(1)
proof (cases rule: well_formed_cases)
  case (null v)
  then show ?thesis using assms(6) by (simp add: obj_def)
next
  case (buf u a buf)
  have ob: "obj s other = u" using buf(1) by (simp add: obj_def)
  have pos: "0 < unat (m_size u)" using assms(6) ob by (simp add: unat_gt_0)
  have len: "0 < length buf" using pos buf(5,6) by (simp add: word_le_nat_alt)
  have "buf ! 0 \<noteq> None" using list_all_take_nth [OF buf(7), of 0] pos len by simp
  then obtain x where x: "buf ! 0 = Some x" by auto
  show ?thesis
  proof (cases "AllocPolicy P")
    case NewAllocator
    then show ?thesis using assms(5,7) by (simp add: allocate_def)
  next
    case MallocAllocator
    then show ?thesis
      using assms(3,4,5,7) ob pos len x buf(2,4)
      by (simp add: allocate_def Let_def upt_conv_Cons read_at_def construct_at_def)
  qed
qed

lemma well_formed_frame:
  assumes "objects s' this = Some v'" "objects s this = Some v"
    and "m_data v' = m_data v" "m_size v' = m_size v" "m_capacity v' = m_capacity v"
    and "buffer s' (m_data v) = buffer s (m_data v)"
  shows "well_formed s' this \<longleftrightarrow> well_formed s this"
  using assms
  by (cases "m_data v") (simp_all add: well_formed_def storage_ok_def cong: option.case_cong)

lemma slots_frame:
  assumes "m_data (obj s' this) = m_data (obj s this)" "m_size (obj s' this) = m_size (obj s this)"
    and "buffer s' (m_data (obj s this)) = buffer s (m_data (obj s this))"
  shows "slots s' this = slots s this"
  using assms by (simp add: slots_def cong: option.case_cong)

lemma Vector_copy_ok:
  assumes "valid s A" "B \<noteq> A" "m_capacity (obj s A) \<noteq> 0"
    and "unat (m_capacity (obj s A)) \<le> avail s"
  shows "\<exists>s'. Vector_copy P B A s = Returns () s' \<and>
      objects s' = (objects s)(B \<mapsto> (obj s A)\<lparr>m_data := Ptr (length (heap s))\<rparr>) \<and>
      avail s' = avail s - unat (m_capacity (obj s A)) \<and>
      length (heap s') = Suc (length (heap s)) \<and>
      buffer s' = (buffer s)(Ptr (length (heap s)) \<mapsto>
         slots s A @ replicate (unat (m_capacity (obj s A)) - unat (m_size (obj s A))) None)"
proof -
  have lvA: "live A s" and mxA: "\<not> m_mutex (obj s A)" and wA: "well_formed s A"
    using assms(1) by (simp_all add: valid_live) (simp_all add: valid_def)
  have oA: "objects s A = Some (obj s A)" using lvA by (auto simp: live_def obj_def)
  let ?b = "ThreadPolicy P = MultiThreaded"
  let ?s3 = "upd B (\<lambda>v. v\<lparr>m_capacity := m_capacity (obj s A)\<rparr>)
      (upd B (\<lambda>v. v\<lparr>m_size := m_size (obj s A)\<rparr>)
        (upd A (\<lambda>v. v\<lparr>m_mutex := ?b\<rparr>)
          (upd B (\<lambda>v. v\<lparr>m_mutex := ?b\<rparr>) (init B s))))"
  have o3: "obj ?s3 A = (obj s A)\<lparr>m_mutex := ?b\<rparr>"
    "obj ?s3 B = moved_from\<lparr>m_mutex := ?b, m_size := m_size (obj s A),
       m_capacity := m_capacity (obj s A)\<rparr>"
    using assms(2) by simp_all
  have w3: "well_formed ?s3 A"
    using well_formed_frame [of ?s3 A "(obj s A)\<lparr>m_mutex := ?b\<rparr>" s "obj s A"] oA wA assms(2)
    by simp
  have sl3: "slots ?s3 A = slots s A"
    by (rule slots_frame) (use o3 in simp_all)
  have pos: "0 < m_capacity (obj s A)" using assms(3) by (simp add: word_greater_zero_iff)
  from copy_into [OF w3, of B P] o3 assms(2-4) sl3
  obtain s4 where s4:
    "and_then (allocate P (m_capacity (obj ?s3 B)) ?s3) (\<lambda>p s.
                 let s = upd B (\<lambda>v. v\<lparr>m_data := p\<rparr>) s
                 in for_loop [0 ..< unat (m_size (obj s B))] (\<lambda>i s.
                      and_then (read_at (m_data (obj s A)) i s) (\<lambda>x s.
                      construct_at (m_data (obj s B)) i x s)) s) = Returns () s4"
    "objects s4 = (objects ?s3)(B \<mapsto> (obj ?s3 B)\<lparr>m_data := Ptr (length (heap s))\<rparr>)"
    "avail s4 = avail s - unat (m_capacity (obj s A))"
    "length (heap s4) = Suc (length (heap s))"
    "buffer s4 = (buffer s)(Ptr (length (heap s)) \<mapsto>
         slots s A @ replicate (unat (m_capacity (obj s A)) - unat (m_size (obj s A))) None)"
    by auto
  have o4: "obj s4 A = (obj s A)\<lparr>m_mutex := ?b\<rparr>"
    "obj s4 B = moved_from\<lparr>m_mutex := ?b, m_size := m_size (obj s A),
       m_capacity := m_capacity (obj s A), m_data := Ptr (length (heap s))\<rparr>"
    and lv4: "live A s4" "live B s4"
    using s4(2) o3 assms(2) lvA by (simp_all add: obj_def live_def)
  have eqB: "moved_from\<lparr>m_mutex := ?b, m_size := m_size (obj s A),
       m_capacity := m_capacity (obj s A), m_data := Ptr (length (heap s)), m_mutex := False\<rparr>
       = (obj s A)\<lparr>m_data := Ptr (length (heap s))\<rparr>"
    using mxA by (simp add: moved_from_def)
  have eqA: "(obj s A)\<lparr>m_mutex := ?b, m_mutex := False\<rparr> = obj s A"
    using mxA by simp
  have vc: "Vector_copy P B A s =
      and_then (and_then (allocate P (m_capacity (obj ?s3 B)) ?s3) (\<lambda>p s.
                 let s = upd B (\<lambda>v. v\<lparr>m_data := p\<rparr>) s
                 in for_loop [0 ..< unat (m_size (obj s B))] (\<lambda>i s.
                      and_then (read_at (m_data (obj s A)) i s) (\<lambda>x s.
                      construct_at (m_data (obj s B)) i x s)) s)) (\<lambda>_ s.
      and_then (unlock P A s) (\<lambda>_ s. unlock P B s))"
    using lvA mxA assms(2) pos
    by (simp add: Vector_copy_def Let_def lock_ok)
  show ?thesis
    unfolding vc s4(1)
    using s4(2-5) o4 lv4 assms(2) eqA eqB oA
    by (simp add: unlock_ok fun_eq_iff)
qed

lemma Vector_copy_stuck:
  assumes "valid s A" "B \<noteq> A" "m_size (obj s A) \<noteq> 0"
    and "\<not> unat (m_capacity (obj s A)) \<le> avail s"
  shows "Vector_copy P B A s \<noteq> Returns () s'"
proof -
  have lvA: "live A s" and mxA: "\<not> m_mutex (obj s A)" and wA: "well_formed s A"
    using assms(1) by (simp_all add: valid_live) (simp_all add: valid_def)
  have oA: "objects s A = Some (obj s A)" using lvA by (auto simp: live_def obj_def)
  let ?b = "ThreadPolicy P = MultiThreaded"
  let ?s3 = "upd B (\<lambda>v. v\<lparr>m_capacity := m_capacity (obj s A)\<rparr>)
      (upd B (\<lambda>v. v\<lparr>m_size := m_size (obj s A)\<rparr>)
        (upd A (\<lambda>v. v\<lparr>m_mutex := ?b\<rparr>)
          (upd B (\<lambda>v. v\<lparr>m_mutex := ?b\<rparr>) (init B s))))"
  have o3: "obj ?s3 A = (obj s A)\<lparr>m_mutex := ?b\<rparr>"
    "obj ?s3 B = moved_from\<lparr>m_mutex := ?b, m_size := m_size (obj s A),
       m_capacity := m_capacity (obj s A)\<rparr>"
    using assms(2) by simp_all
  have w3: "well_formed ?s3 A"
    using well_formed_frame [of ?s3 A "(obj s A)\<lparr>m_mutex := ?b\<rparr>" s "obj s A"] oA wA assms(2)
    by simp
  have "m_capacity (obj s A) \<noteq> 0"
    using wA assms(3) by (cases rule: well_formed_cases) (auto simp: obj_def)
  then have pos: "0 < m_capacity (obj s A)" by (simp add: word_greater_zero_iff)
  have vc: "Vector_copy P B A s =
      and_then (and_then (allocate P (m_capacity (obj ?s3 B)) ?s3) (\<lambda>p s.
                 let s = upd B (\<lambda>v. v\<lparr>m_data := p\<rparr>) s
                 in for_loop [0 ..< unat (m_size (obj s B))] (\<lambda>i s.
                      and_then (read_at (m_data (obj s A)) i s) (\<lambda>x s.
                      construct_at (m_data (obj s B)) i x s)) s)) (\<lambda>_ s.
      and_then (unlock P A s) (\<lambda>_ s. unlock P B s))"
    using lvA mxA assms(2) pos
    by (simp add: Vector_copy_def Let_def lock_ok)
  have "and_then (allocate P (m_capacity (obj ?s3 B)) ?s3) (\<lambda>p s.
                 let s = upd B (\<lambda>v. v\<lparr>m_data := p\<rparr>) s
                 in for_loop [0 ..< unat (m_size (obj s B))] (\<lambda>i s.
                      and_then (read_at (m_data (obj s A)) i s) (\<lambda>x s.
                      construct_at (m_data (obj s B)) i x s)) s) =
         (case AllocPolicy P of MallocAllocator \<Rightarrow> Undefined | NewAllocator \<Rightarrow> Throws ?s3)"
    by (rule copy_into_stuck [OF w3]) (use o3 assms(2-4) in simp_all)
  then show ?thesis unfolding vc by (cases "AllocPolicy P") simp_all
qed

lemma copy_assign_unfold:
  assumes "valid s A" "valid s B" "B \<noteq> A"
  shows "copy_assign P B A s =
      and_then (and_then (for_loop [0 ..< unat (m_size (obj s B))] (\<lambda>i s.
                      destroy_at (m_data (obj s B)) i s)
                  (upd A (\<lambda>v. v\<lparr>m_mutex := (ThreadPolicy P = MultiThreaded)\<rparr>)
                    (upd B (\<lambda>v. v\<lparr>m_mutex := (ThreadPolicy P = MultiThreaded)\<rparr>) s))) (\<lambda>_ s.
               if m_data (obj s B) \<noteq> nullptr
               then deallocate (m_data (obj s B)) s else Returns () s)) (\<lambda>_ s.
      let s = upd B (\<lambda>v. v\<lparr>m_size := m_size (obj s A)\<rparr>) s;
          s = upd B (\<lambda>v. v\<lparr>m_capacity := m_capacity (obj s A)\<rparr>) s
      in and_then (if m_capacity (obj s B) > 0
                then and_then (allocate P (m_capacity (obj s B)) s) (\<lambda>p s.
                       let s = upd B (\<lambda>v. v\<lparr>m_data := p\<rparr>) s
                       in for_loop [0 ..< unat (m_size (obj s B))] (\<lambda>i s.
                            and_then (read_at (m_data (obj s A)) i s) (\<lambda>x s.
                            construct_at (m_data (obj s B)) i x s)) s)
                else Returns () (upd B (\<lambda>v. v\<lparr>m_data := nullptr\<rparr>) s)) (\<lambda>_ s.
         and_then (unlock P A s) (\<lambda>_ s. unlock P B s)))"
proof -
  have lvA: "live A s" and mxA: "\<not> m_mutex (obj s A)"
    using assms(1) by (simp_all add: valid_live) (simp_all add: valid_def)
  have lvB: "live B s" and mxB: "\<not> m_mutex (obj s B)"
    using assms(2) by (simp_all add: valid_live) (simp_all add: valid_def)
  show ?thesis
    using lvA lvB mxA mxB assms(3)
    by (simp add: copy_assign_def lock_ok and_then_assoc)
qed

lemma copy_assign_cases:
  assumes "valid s A" "valid s B" "B \<noteq> A"
    and "m_data (obj s B) \<noteq> m_data (obj s A) \<or> m_data (obj s B) = nullptr"
    and "m_capacity (obj s A) \<noteq> 0"
  shows "unat (m_capacity (obj s A)) \<le> avail s + unat (m_capacity (obj s B)) \<Longrightarrow>
     \<exists>s'. copy_assign P B A s = Returns () s' \<and>
      objects s' = (objects s)(B \<mapsto> (obj s A)\<lparr>m_data := Ptr (length (heap s))\<rparr>) \<and>
      avail s' = avail s + unat (m_capacity (obj s B)) - unat (m_capacity (obj s A)) \<and>
      length (heap s') = Suc (length (heap s)) \<and>
      buffer s' = (buffer s)(m_data (obj s B) := None, Ptr (length (heap s)) \<mapsto>
         slots s A @ replicate (unat (m_capacity (obj s A)) - unat (m_size (obj s A))) None)"
    and "\<not> unat (m_capacity (obj s A)) \<le> avail s + unat (m_capacity (obj s B)) \<Longrightarrow>
      m_size (obj s A) \<noteq> 0 \<Longrightarrow> copy_assign P B A s \<noteq> Returns () s'"
proof -
  have lvA: "live A s" and mxA: "\<not> m_mutex (obj s A)" and wA: "well_formed s A"
    using assms(1) by (simp_all add: valid_live) (simp_all add: valid_def)
  have lvB: "live B s" and mxB: "\<not> m_mutex (obj s B)" and wB: "well_formed s B"
    using assms(2) by (simp_all add: valid_live) (simp_all add: valid_def)
  have oA: "objects s A = Some (obj s A)" using lvA by (auto simp: live_def obj_def)
  have bA: "buffer s (m_data (obj s A)) \<noteq> None"
    using wA assms(5) by (cases rule: well_formed_cases) (auto simp: obj_def)
  let ?b = "ThreadPolicy P = MultiThreaded"
  let ?s2 = "upd A (\<lambda>v. v\<lparr>m_mutex := ?b\<rparr>) (upd B (\<lambda>v. v\<lparr>m_mutex := ?b\<rparr>) s)"
  have ob2: "obj ?s2 B = (obj s B)\<lparr>m_mutex := ?b\<rparr>" "obj ?s2 A = (obj s A)\<lparr>m_mutex := ?b\<rparr>"
    using assms(3) by simp_all
  have w2: "well_formed ?s2 B"
    using wB lvB assms(3) by (simp add: well_formed_def obj_def live_def split: option.splits)
  from teardown [OF w2]
  obtain s3 where s3:
    "and_then (for_loop [0 ..< unat (m_size (obj s B))] (\<lambda>i s.
                      destroy_at (m_data (obj s B)) i s) ?s2) (\<lambda>_ s.
               if m_data (obj s B) \<noteq> nullptr
               then deallocate (m_data (obj s B)) s else Returns () s) = Returns () s3"
    "objects s3 = objects ?s2" "avail s3 = avail s + unat (m_capacity (obj s B))"
    "length (heap s3) = length (heap s)"
    "buffer s3 = (buffer s)(m_data (obj s B) := None)"
    using ob2 assms(3) by auto
  have ob3: "obj s3 B = (obj s B)\<lparr>m_mutex := ?b\<rparr>" "obj s3 A = (obj s A)\<lparr>m_mutex := ?b\<rparr>"
    and lv3: "live A s3" "live B s3"
    using s3(2) ob2 lvA lvB by (simp_all add: obj_def live_def)
  let ?s4 = "upd B (\<lambda>v. v\<lparr>m_capacity := m_capacity (obj s A)\<rparr>)
      (upd B (\<lambda>v. v\<lparr>m_size := m_size (obj s A)\<rparr>) s3)"
  have o4: "obj ?s4 A = (obj s A)\<lparr>m_mutex := ?b\<rparr>"
    "obj ?s4 B = (obj s B)\<lparr>m_mutex := ?b, m_size := m_size (obj s A),
       m_capacity := m_capacity (obj s A)\<rparr>"
    using assms(3) ob3 by simp_all
  have bA4: "buffer ?s4 (m_data (obj s A)) = buffer s (m_data (obj s A))"
    using s3(5) assms(4) bA by auto
  have o4A: "objects ?s4 A = Some ((obj s A)\<lparr>m_mutex := ?b\<rparr>)"
    using s3(2) assms(3) oA by simp
  have w4: "well_formed ?s4 A"
    using well_formed_frame [OF o4A oA _ _ _ bA4] wA by simp
  have sl4: "slots ?s4 A = slots s A"
    by (rule slots_frame) (use o4 bA4 in simp_all)
  have pos: "0 < m_capacity (obj s A)" using assms(5) by (simp add: word_greater_zero_iff)
  have ca: "copy_assign P B A s =
      and_then (and_then (allocate P (m_capacity (obj ?s4 B)) ?s4) (\<lambda>p s.
                       let s = upd B (\<lambda>v. v\<lparr>m_data := p\<rparr>) s
                       in for_loop [0 ..< unat (m_size (obj s B))] (\<lambda>i s.
                            and_then (read_at (m_data (obj s A)) i s) (\<lambda>x s.
                            construct_at (m_data (obj s B)) i x s)) s)) (\<lambda>_ s.
         and_then (unlock P A s) (\<lambda>_ s. unlock P B s))"
    unfolding copy_assign_unfold [OF assms(1-3)] s3(1)
    using ob3 assms(3) pos by (simp add: Let_def)
  {
    assume fits: "unat (m_capacity (obj s A)) \<le> avail s + unat (m_capacity (obj s B))"
    from copy_into [OF w4, of B P] o4 assms(3,5) sl4 fits s3(3,4)
    obtain s5 where s5:
      "and_then (allocate P (m_capacity (obj ?s4 B)) ?s4) (\<lambda>p s.
                 let s = upd B (\<lambda>v. v\<lparr>m_data := p\<rparr>) s
                 in for_loop [0 ..< unat (m_size (obj s B))] (\<lambda>i s.
                      and_then (read_at (m_data (obj s A)) i s) (\<lambda>x s.
                      construct_at (m_data (obj s B)) i x s)) s) = Returns () s5"
      "objects s5 = (objects ?s4)(B \<mapsto> (obj ?s4 B)\<lparr>m_data := Ptr (length (heap s))\<rparr>)"
      "avail s5 = avail s + unat (m_capacity (obj s B)) - unat (m_capacity (obj s A))"
      "length (heap s5) = Suc (length (heap s))"
      "buffer s5 = (buffer ?s4)(Ptr (length (heap s)) \<mapsto>
           slots s A @ replicate (unat (m_capacity (obj s A)) - unat (m_size (obj s A))) None)"
      by auto
    have o5: "obj s5 A = (obj s A)\<lparr>m_mutex := ?b\<rparr>"
      "obj s5 B = (obj s B)\<lparr>m_mutex := ?b, m_size := m_size (obj s A),
         m_capacity := m_capacity (obj s A), m_data := Ptr (length (heap s))\<rparr>"
      and lv5: "live A s5" "live B s5"
      using s5(2) o4 assms(3) lv3 by (simp_all add: obj_def live_def)
    have eqB: "(obj s B)\<lparr>m_mutex := ?b, m_size := m_size (obj s A),
         m_capacity := m_capacity (obj s A), m_data := Ptr (length (heap s)), m_mutex := False\<rparr>
         = (obj s A)\<lparr>m_data := Ptr (length (heap s))\<rparr>"
      using mxA by simp
    have eqA: "(obj s A)\<lparr>m_mutex := ?b, m_mutex := False\<rparr> = obj s A"
      using mxA by simp
    have fr: "m_data (obj s B) \<noteq> Ptr (length (heap s))"
      using wB by (cases rule: well_formed_cases) (auto simp: obj_def)
    show "\<exists>s'. copy_assign P B A s = Returns () s' \<and>
      objects s' = (objects s)(B \<mapsto> (obj s A)\<lparr>m_data := Ptr (length (heap s))\<rparr>) \<and>
      avail s' = avail s + unat (m_capacity (obj s B)) - unat (m_capacity (obj s A)) \<and>
      length (heap s') = Suc (length (heap s)) \<and>
      buffer s' = (buffer s)(m_data (obj s B) := None, Ptr (length (heap s)) \<mapsto>
         slots s A @ replicate (unat (m_capacity (obj s A)) - unat (m_size (obj s A))) None)"
      unfolding ca s5(1)
      using s5(2-5) s3(2,5) o5 lv5 assms(3) eqA eqB oA fr
      by (simp add: unlock_ok fun_eq_iff)
  }
  {
    assume oom: "\<not> unat (m_capacity (obj s A)) \<le> avail s + unat (m_capacity (obj s B))"
      and ne: "m_size (obj s A) \<noteq> 0"
    have "and_then (allocate P (m_capacity (obj ?s4 B)) ?s4) (\<lambda>p s.
                 let s = upd B (\<lambda>v. v\<lparr>m_data := p\<rparr>) s
                 in for_loop [0 ..< unat (m_size (obj s B))] (\<lambda>i s.
                      and_then (read_at (m_data (obj s A)) i s) (\<lambda>x s.
                      construct_at (m_data (obj s B)) i x s)) s) =
         (case AllocPolicy P of MallocAllocator \<Rightarrow> Undefined | NewAllocator \<Rightarrow> Throws ?s4)"
      by (rule copy_into_stuck [OF w4]) (use o4 assms(3) oom ne s3(3) in simp_all)
    then show "copy_assign P B A s \<noteq> Returns () s'"
      unfolding ca by (cases "AllocPolicy P") simp_all
  }
qed

subsection \<open>Mutations of one Vector leave the others alone\<close>

lemma index_write_Returns:
  assumes "valid s this" "index_write P this i x s = Returns () s'"
  shows "\<exists>buf. buffer s (m_data (obj s this)) = Some buf \<and> unat i < length buf \<and>
           s' = set_slot (m_data (obj s this)) (unat i) (Some x) s"
proof -
  have lv: "live this s" and mx: "\<not> m_mutex (obj s this)"
    using assms(1) by (simp_all add: valid_live) (simp_all add: valid_def)
  show ?thesis
  proof (cases "buffer s (m_data (obj s this))")
    case None
    then show ?thesis using assms(2) lv mx
      by (simp add: index_write_def subscript_def lock_ok element_ref_def)
  next
    case (Some buf)
    show ?thesis
    proof (cases "unat i < length buf")
      case False
      then show ?thesis using assms(2) lv mx Some
        by (simp add: index_write_def subscript_def lock_ok element_ref_def)
    next
      case True
      from subscript_ok [OF assms(1) Some True, of P] assms(2) Some True
      show ?thesis
        by (auto simp: index_write_def store_def read_at_def split: option.splits)
    qed
  qed
qed

lemma list_all_update_Some:
  assumes "list_all (\<lambda>x. x \<noteq> None) (take k xs)"
  shows "list_all (\<lambda>x. x \<noteq> None) (take k (xs[i := Some y]))"
  unfolding list_all_length
proof (intro allI impI)
  fix n
  assume "n < length (take k (xs[i := Some y]))"
  then have n: "n < k" "n < length xs" by simp_all
  then have "xs ! n \<noteq> None" using list_all_take_nth [OF assms] by simp
  then show "take k (xs[i := Some y]) ! n \<noteq> None"
    using n by (cases "i = n") simp_all
qed

lemma mutate_frame:
  assumes "valid s B" "mutate P B m s = Returns () s'"
  shows "valid s' B"
    and "\<And>that. that \<noteq> B \<Longrightarrow> objects s' that = objects s that"
    and "\<And>q. q \<noteq> m_data (obj s B) \<Longrightarrow> buffer s q \<noteq> None \<Longrightarrow> buffer s' q = buffer s q"
    and "m_data (obj s' B) = m_data (obj s B) \<or> buffer s (m_data (obj s' B)) = None"
proof -
  have "valid s' B \<and> (\<forall>that. that \<noteq> B \<longrightarrow> objects s' that = objects s that) \<and>
    (\<forall>q. q \<noteq> m_data (obj s B) \<longrightarrow> buffer s q \<noteq> None \<longrightarrow> buffer s' q = buffer s q) \<and>
    (m_data (obj s' B) = m_data (obj s B) \<or> buffer s (m_data (obj s' B)) = None)"
  proof (cases m)
    case (PushBack r)
    then have "push_back P B r s = Returns () s'" using assms(2) by simp
    from push_back_effect_ref(1,7,8,9) [OF assms(1) this] show ?thesis by blast
  next
    case PopBack
    then have r: "pop_back P B s = Returns () s'" using assms(2) by simp
    show ?thesis
    proof (cases "m_size (obj s B) = 0")
      case True
      from pop_back_empty [OF assms(1) True, of P] r assms(1) show ?thesis by simp
    next
      case False
      from pop_back_effect [OF assms(1) False, of P] r show ?thesis by (auto simp: obj_def)
    qed
  next
    case (IndexWrite i x)
    then have "index_write P B i x s = Returns () s'" using assms(2) by simp
    from index_write_Returns [OF assms(1) this]
    obtain buf where b: "buffer s (m_data (obj s B)) = Some buf" "unat i < length buf"
      "s' = set_slot (m_data (obj s B)) (unat i) (Some x) s"
      by blast
    have w: "well_formed s B" and mx: "\<not> m_mutex (obj s B)"
      using assms(1) by (simp_all add: valid_def)
    from w have "valid s' B"
    proof (cases rule: well_formed_cases)
      case (null v)
      then show ?thesis using b(1) by (simp add: obj_def)
    next
      case (buf v a buf')
      have ob: "obj s B = v" using buf(1) by (simp add: obj_def)
      have [simp]: "buf' = buf" using b(1) buf(2,4) ob by simp
      have o': "objects s' B = Some v" using b(3) buf(1) by simp
      have b': "buffer s' (Ptr a) = Some (buf[unat i := Some x])"
        using b(1,3) buf(2) ob by simp
      have la: "list_all (\<lambda>x. x \<noteq> None) (take (unat (m_size v)) (buf'[unat i := Some x]))"
        using buf(7) by (rule list_all_update_Some)
      show ?thesis
        by (rule valid_bufferI [OF o' _ buf(2) b'])
           (use buf(3,5,6) mx ob b(2) la in \<open>simp_all add: word_le_nat_alt\<close>)
    qed
    then show ?thesis using b(3) by (auto simp: obj_def)
  qed
  then show "valid s' B"
    and "\<And>that. that \<noteq> B \<Longrightarrow> objects s' that = objects s that"
    and "\<And>q. q \<noteq> m_data (obj s B) \<Longrightarrow> buffer s q \<noteq> None \<Longrightarrow> buffer s' q = buffer s q"
    and "m_data (obj s' B) = m_data (obj s B) \<or> buffer s (m_data (obj s' B)) = None"
    by simp_all
qed

lemma mutate_all_frame:
  assumes "valid s B" "A \<noteq> B" "buffer s p \<noteq> None" "m_data (obj s B) \<noteq> p"
    and "mutate_all P B ms s = Returns () s'"
  shows "objects s' A = objects s A \<and> buffer s' p = buffer s p"
  using assms
proof (induction ms arbitrary: s)
  case Nil
  then show ?case by simp
next
  case (Cons m ms)
  from Cons.prems(5) obtain s1 where s1: "mutate P B m s = Returns () s1"
    "mutate_all P B ms s1 = Returns () s'"
    by (auto simp: and_then_Returns_iff)
  note f = mutate_frame [OF Cons.prems(1) s1(1)]
  have o1: "objects s1 A = objects s A" using f(2) Cons.prems(2) by simp
  have b1: "buffer s1 p = buffer s p" using f(3) Cons.prems(3,4) by simp
  have d1: "m_data (obj s1 B) \<noteq> p" using f(4) Cons.prems(3,4) by auto
  from Cons.IH [OF f(1) Cons.prems(2) _ d1 s1(2)] b1 o1 Cons.prems(3)
  show ?case by simp
qed

lemma buffer_objects_update [simp]: "buffer (s\<lparr>objects := f\<rparr>) = buffer s"
  by (simp add: buffer_def fun_eq_iff split: ptr.splits)

lemma elements_eqI:
  assumes "m_data (obj s' B) = m_data (obj s A)" "m_size (obj s' B) = m_size (obj s A)"
    and "buffer s' (m_data (obj s A)) = buffer s (m_data (obj s A))"
  shows "elements s' B = elements s A"
  using assms by (simp add: elements_def slots_def cong: option.case_cong)

subsection \<open>The test states, continued\<close>

lemma pair_state_valid: "valid pair_state 1" "valid pair_state 2"
  by (simp_all add: valid_def well_formed_def storage_ok_def pair_state_def obj_def buffer_def)

lemma v1_state_facts:
  "size' v1_state 1 = 3" "capacity v1_state 1 = 4" "m_data (obj v1_state 1) = Ptr 2"
  "elements v1_state 1 = [10, 20, 30]" "avail v1_state = 60" "length (heap v1_state) = 3"
  by (simp_all add: v1_state_def capacity_def size'_def obj_def elements_def slots_def buffer_def)

lemma pair_state_facts:
  "size' pair_state 1 = 3" "capacity pair_state 1 = 4" "m_data (obj pair_state 1) = Ptr 2"
  "elements pair_state 1 = [10, 20, 30]" "avail pair_state = 58" "length (heap pair_state) = 4"
  "size' pair_state 2 = 1" "capacity pair_state 2 = 2" "m_data (obj pair_state 2) = Ptr 3"
  "elements pair_state 2 = [7]"
  by (simp_all add: pair_state_def capacity_def size'_def obj_def elements_def slots_def buffer_def)

subsection \<open>Copying, continued\<close>

lemma fresh_neq:
  assumes "buffer s p \<noteq> None"
  shows "Ptr (length (heap s)) \<noteq> p"
proof
  assume "Ptr (length (heap s)) = p"
  then have "buffer s p = None" using buffer_fresh [of s] by simp
  with assms show False by simp
qed

lemma copy_post:
  assumes "valid s A" "m_size (obj s A) \<noteq> 0" "B \<noteq> A"
    and "objects s1 = (objects s)(B \<mapsto> (obj s A)\<lparr>m_data := Ptr (length (heap s))\<rparr>)"
    and "buffer s1 (Ptr (length (heap s))) = Some (slots s A @
           replicate (unat (m_capacity (obj s A)) - unat (m_size (obj s A))) None)"
    and "buffer s1 (m_data (obj s A)) = buffer s (m_data (obj s A))"
  shows "size' s1 B = size' s A \<and> capacity s1 B = capacity s A \<and>
         elements s1 B = elements s A \<and> valid s1 B \<and>
         m_data (obj s1 B) \<noteq> m_data (obj s A) \<and> buffer s (m_data (obj s1 B)) = None \<and>
         (\<exists>buf. buffer s1 (m_data (obj s1 B)) = Some buf \<and> length buf = unat (capacity s A)) \<and>
         (\<forall>ms s2. mutate_all P B ms s1 = Returns () s2 \<longrightarrow>
            size' s2 A = size' s A \<and> capacity s2 A = capacity s A \<and>
            elements s2 A = elements s A)"
proof -
  let ?L = "Ptr (length (heap s))"
  let ?k = "unat (m_size (obj s A))"
  let ?buf = "slots s A @ replicate (unat (m_capacity (obj s A)) - ?k) None"
  have w: "well_formed s A" and mx: "\<not> m_mutex (obj s A)"
    using assms(1) by (simp_all add: valid_def)
  have len: "length (slots s A) = ?k" and all: "list_all (\<lambda>x. x \<noteq> None) (slots s A)"
    using well_formed_slots [OF w] by simp_all
  from w have bA: "buffer s (m_data (obj s A)) \<noteq> None"
    and le: "?k \<le> unat (m_capacity (obj s A))" and pos: "0 < unat (m_capacity (obj s A))"
    using assms(2)
    by (cases rule: well_formed_cases; simp add: obj_def word_le_nat_alt unat_gt_0)+
  have oB: "objects s1 B = Some ((obj s A)\<lparr>m_data := ?L\<rparr>)"
    and obB: "obj s1 B = (obj s A)\<lparr>m_data := ?L\<rparr>"
    and oA: "objects s1 A = objects s A" and obA: "obj s1 A = obj s A"
    using assms(3,4) by (simp_all add: obj_def)
  have neq: "?L \<noteq> m_data (obj s A)" using bA by (rule fresh_neq)
  have tk: "take ?k ?buf = slots s A" using len by simp
  have "elements s1 B = map the (take (unat (m_size ((obj s A)\<lparr>m_data := ?L\<rparr>))) ?buf)"
    by (rule elements_bufferI [OF oB]) (simp add: assms(5))
  also have "\<dots> = map the (take ?k ?buf)" by simp
  also have "\<dots> = map the (slots s A)" by (simp only: tk)
  finally have e: "elements s1 B = elements s A" by (simp add: elements_def)
  have vB: "valid s1 B"
    by (rule valid_bufferI [OF oB _ _ assms(5)]) (use mx len le pos tk all in simp_all)
  have frame: "size' s2 A = size' s A \<and> capacity s2 A = capacity s A \<and>
            elements s2 A = elements s A"
    if run: "mutate_all P B ms s1 = Returns () s2" for ms s2
  proof -
    have "buffer s1 (m_data (obj s A)) \<noteq> None" using assms(6) bA by simp
    moreover have "m_data (obj s1 B) \<noteq> m_data (obj s A)" using obB neq by simp
    ultimately have "objects s2 A = objects s1 A \<and>
        buffer s2 (m_data (obj s A)) = buffer s1 (m_data (obj s A))"
      using mutate_all_frame [OF vB _ _ _ run, of A "m_data (obj s A)"] assms(3) by simp
    then have o2: "obj s2 A = obj s A"
      and b2: "buffer s2 (m_data (obj s A)) = buffer s (m_data (obj s A))"
      using oA assms(6) by (simp_all add: obj_def)
    have "elements s2 A = elements s A"
      by (rule elements_eqI) (simp_all add: o2 b2)
    then show ?thesis using o2 by (simp add: size'_def capacity_def)
  qed
  show ?thesis
    using e vB obB neq assms(5) len le frame
    by (simp add: size'_def capacity_def)
qed

subsection \<open>The state invariant\<close>

lemma valid_state_invariant: "valid s this \<Longrightarrow> state_invariant s this"
  by (auto simp: valid_def well_formed_def storage_ok_def state_invariant_def size'_def
      capacity_def obj_def split: option.splits ptr.splits)

subsection \<open>The run of the test, step by step\<close>

lemma two_not_le_one: "\<not> (2 :: size_t) \<le> 1"
  by (simp add: word_le_nat_alt)

lemma push_back_fresh_state: "push_back test_policies 1 (Object 10) (init 1 fresh_state) = Returns () one_state"
  by (simp add: push_back_def reserve_def live_def obj_def upd_def init_def lock_def unlock_def
      allocate_def deallocate_def construct_at_def buffer_def set_slot_def
      test_policies_def fresh_state_def one_state_def)

lemma push_back_one_state: "push_back test_policies 1 (Object 20) one_state = Returns () full_state"
  by (simp add: push_back_def reserve_def live_def obj_def upd_def lock_def unlock_def
      allocate_def deallocate_def construct_at_def buffer_def set_slot_def read_at_def
      destroy_at_def upt_conv_Cons test_policies_def one_state_def full_state_def
      two_not_le_one)
     (simp add: eval_nat_numeral)

lemma test_run_reaches_v1_state:
  "push_all test_policies 1 [Object 10, Object 20, Object 30] (init 1 fresh_state) = Returns () v1_state"
  by (simp only: push_all.simps and_then.simps push_back_fresh_state push_back_one_state
      push_back_full_state)

subsection \<open>Construction with a size, destruction, and validity after reserve and move\<close>

lemma buffer_heap_append:
  "heap s = h \<Longrightarrow> buffer (s\<lparr>heap := h @ [Some b], avail := k\<rparr>) = (buffer s)(Ptr (length h) \<mapsto> b)"
  by (auto simp: buffer_def fun_eq_iff nth_append split: ptr.splits)

lemma Vector_sized_ok:
  assumes "0 < n" "unat n \<le> avail s"
  shows "\<exists>s'. Vector_sized P d this n s = Returns () s' \<and>
      objects s' = (objects s)(this \<mapsto>
        \<lparr>m_data = Ptr (length (heap s)), m_size = n, m_capacity = n, m_mutex = False\<rparr>) \<and>
      avail s' = avail s - unat n \<and> length (heap s') = Suc (length (heap s)) \<and>
      buffer s' = (buffer s)(Ptr (length (heap s)) \<mapsto> replicate (unat n) (Some d)) \<and>
      valid s' this \<and> elements s' this = replicate (unat n) d"
proof -
  let ?L = "Ptr (length (heap s))"
  let ?s0 = "upd this (\<lambda>v. v\<lparr>m_size := n, m_capacity := n\<rparr>) (init this s)"
  let ?sa = "upd this (\<lambda>v. v\<lparr>m_data := ?L\<rparr>)
     (?s0\<lparr>heap := heap ?s0 @ [Some (replicate (unat n) None)], avail := avail ?s0 - unat n\<rparr>)"
  have al: "allocate P n ?s0 = Returns ?L
      (?s0\<lparr>heap := heap ?s0 @ [Some (replicate (unat n) None)], avail := avail ?s0 - unat n\<rparr>)"
    using assms(2) by (simp add: allocate_def)
  have oa: "m_data (obj ?sa this) = ?L" "m_size (obj ?sa this) = n" by simp_all
  have ba: "buffer ?sa = (buffer s)(?L \<mapsto> replicate (unat n) None)"
    by (simp add: buffer_heap_append)
  from fill_loop [of ?sa this ?L "replicate (unat n) None" "unat n" d] oa(1) ba
  obtain s1 where s1:
    "for_loop [0 ..< unat n] (\<lambda>i s. construct_at (m_data (obj s this)) i d s) ?sa = Returns () s1"
    "objects s1 = objects ?sa" "avail s1 = avail s - unat n" "length (heap s1) = Suc (length (heap s))"
    "buffer s1 = (buffer s)(?L \<mapsto> replicate (unat n) (Some d))"
    by auto
  have o1: "objects s1 = (objects s)(this \<mapsto>
        \<lparr>m_data = ?L, m_size = n, m_capacity = n, m_mutex = False\<rparr>)"
    using s1(2) by (simp add: fun_eq_iff moved_from_def)
  have r: "Vector_sized P d this n s = Returns () s1"
    using assms(1) al s1(1) oa(2) by (simp add: Vector_sized_def Let_def)
  have pos: "0 < unat n" using assms(1) by (simp add: word_less_nat_alt)
  have o1': "objects s1 this = Some \<lparr>m_data = ?L, m_size = n, m_capacity = n, m_mutex = False\<rparr>"
    and b1: "buffer s1 ?L = Some (replicate (unat n) (Some d))"
    using o1 s1(5) by simp_all
  have v: "valid s1 this"
    by (rule valid_bufferI [OF o1' _ _ b1]) (use pos in \<open>simp_all add: list_all_length\<close>)
  have e: "elements s1 this = replicate (unat n) d"
    using elements_bufferI [OF o1', of "replicate (unat n) (Some d)"] b1
    by (simp add: map_replicate)
  show ?thesis using r o1 s1(3-5) v e by blast
qed

lemma Vector_dtor_ok:
  assumes "well_formed s this"
  shows "\<exists>s'. Vector_dtor this s = Returns () s' \<and>
      objects s' = (objects s)(this := None) \<and>
      avail s' = avail s + unat (m_capacity (obj s this)) \<and>
      length (heap s') = length (heap s) \<and>
      buffer s' = (buffer s)(m_data (obj s this) := None)"
  using assms
proof (cases rule: well_formed_cases)
  case (null v)
  then show ?thesis by (simp add: Vector_dtor_def live_def obj_def fun_eq_iff)
next
  case (buf v a buf)
  have ob: "obj s this = v" and lv: "live this s" using buf(1) by (simp_all add: obj_def live_def)
  have k: "unat (m_size v) \<le> length buf" using buf(5,6) by (simp add: word_le_nat_alt)
  from destroy_loop [of s this "Ptr a" buf "unat (m_size v)"] ob buf k
  obtain s1 where s1:
    "for_loop [0 ..< unat (m_size v)] (\<lambda>i s. destroy_at (m_data (obj s this)) i s) s = Returns () s1"
    "objects s1 = objects s" "avail s1 = avail s" "length (heap s1) = length (heap s)"
    "buffer s1 = (buffer s)(Ptr a \<mapsto> replicate (unat (m_size v)) None @ drop (unat (m_size v)) buf)"
    by auto
  have ob1: "obj s1 this = v" using s1(2) buf(1) by (simp add: obj_def)
  show ?thesis
    using lv ob s1 ob1 buf k by (simp add: Vector_dtor_def deallocate_def fun_eq_iff)
qed

lemma reserve_valid:
  assumes "valid s this" "m_capacity (obj s this) < n" "unat n \<le> avail s"
    and "reserve P this n s = Returns () s'"
  shows "valid s' this"
proof -
  have w: "well_formed s this" and mx: "\<not> m_mutex (obj s this)"
    using assms(1) by (simp_all add: valid_def)
  let ?k = "unat (m_size (obj s this))"
  let ?buf = "slots s this @ replicate (unat n - ?k) None"
  from reserve_grow [OF w assms(2,3), of P] assms(4)
  have s': "objects s' = (objects s)(this \<mapsto>
         (obj s this)\<lparr>m_data := Ptr (length (heap s)), m_capacity := n\<rparr>)"
    "buffer s' = (buffer s)(m_data (obj s this) := None, Ptr (length (heap s)) \<mapsto> ?buf)"
    by auto
  have len: "length (slots s this) = ?k" and all: "list_all (\<lambda>x. x \<noteq> None) (slots s this)"
    using well_formed_slots [OF w] by simp_all
  have le: "m_size (obj s this) \<le> m_capacity (obj s this)"
    using w by (cases rule: well_formed_cases) (simp_all add: obj_def)
  then have kn: "?k < unat n" using assms(2) by (simp add: word_le_nat_alt word_less_nat_alt)
  have o': "objects s' this = Some ((obj s this)\<lparr>m_data := Ptr (length (heap s)), m_capacity := n\<rparr>)"
    and b': "buffer s' (Ptr (length (heap s))) = Some ?buf"
    using s' by simp_all
  have tk: "take ?k ?buf = slots s this" using len by simp
  show ?thesis
    by (rule valid_bufferI [OF o' _ _ b']) (use mx len kn all in \<open>simp_all\<close>)
qed

lemma Vector_move_valid:
  assumes "valid s A" "B \<noteq> A" "Vector_move P B A s = Returns () s'"
  shows "valid s' B" and "valid s' A"
proof -
  have s': "s' = s\<lparr>objects := (objects s)(B \<mapsto> obj s A, A \<mapsto> moved_from)\<rparr>"
    using Vector_move_ok [OF assms(1,2), of P] assms(3) by simp
  have w: "well_formed s A" and mx: "\<not> m_mutex (obj s A)"
    using assms(1) by (simp_all add: valid_def)
  have oB: "objects s' B = Some (obj s A)" "obj s' B = obj s A"
    using s' assms(2) by (simp_all add: obj_def)
  from w have "storage_ok s (obj s A)"
    by (auto simp: well_formed_def obj_def split: option.splits)
  then have "storage_ok s' (obj s A)"
    using s' by (simp add: storage_ok_def cong: ptr.case_cong option.case_cong)
  then show "valid s' B" using oB mx by (simp add: valid_def well_formed_def)
  show "valid s' A"
    using s' by (simp add: valid_def well_formed_def storage_ok_def obj_def moved_from_def)
qed

subsection \<open>push_back and the object its argument refers to\<close>

lemma deref_frame:
  assumes "deref r s = Returns x s"
    and "\<And>ref. r = Element ref \<Longrightarrow> buffer s' (fst ref) = buffer s (fst ref)"
  shows "deref r s' = Returns x s'"
  using assms
  by (cases r) (auto simp: deref_def load_def read_at_def split: option.splits if_splits)

lemma deref_released:
  assumes "buffer s p = None"
  shows "deref (Element (p, i)) s = Undefined"
  using assms by (simp add: deref_def load_def read_at_def)

lemma push_back_unfold:
  assumes "live this s" "\<not> m_mutex (obj s this)"
  shows "push_back P this r s =
     and_then (if m_size (obj s this) = m_capacity (obj s this)
               then reserve P this (grown (m_capacity (obj s this)))
                      (upd this (\<lambda>v. v\<lparr>m_mutex := (ThreadPolicy P = MultiThreaded)\<rparr>) s)
               else Returns () (upd this (\<lambda>v. v\<lparr>m_mutex := (ThreadPolicy P = MultiThreaded)\<rparr>) s))
       (\<lambda>_ s.
     and_then (deref r s) (\<lambda>x s.
     and_then (construct_at (m_data (obj s this)) (unat (m_size (obj s this))) x s) (\<lambda>_ s.
     unlock P this (upd this (\<lambda>v. v\<lparr>m_size := m_size v + 1\<rparr>) s))))"
  using assms
  by (simp add: push_back_def lock_ok grown_def split del: if_split cong: if_cong)

lemma push_back_ref_eq:
  assumes "live this s" "\<not> m_mutex (obj s this)"
    and "\<And>s2. (if m_size (obj s this) = m_capacity (obj s this)
               then reserve P this (grown (m_capacity (obj s this)))
                      (upd this (\<lambda>v. v\<lparr>m_mutex := (ThreadPolicy P = MultiThreaded)\<rparr>) s)
               else Returns () (upd this (\<lambda>v. v\<lparr>m_mutex := (ThreadPolicy P = MultiThreaded)\<rparr>) s))
             = Returns () s2 \<Longrightarrow> deref r s2 = Returns x s2"
  shows "push_back P this r s = push_back P this (Object x) s"
proof -
  let ?pre = "if m_size (obj s this) = m_capacity (obj s this)
               then reserve P this (grown (m_capacity (obj s this)))
                      (upd this (\<lambda>v. v\<lparr>m_mutex := (ThreadPolicy P = MultiThreaded)\<rparr>) s)
               else Returns () (upd this (\<lambda>v. v\<lparr>m_mutex := (ThreadPolicy P = MultiThreaded)\<rparr>) s)"
  show ?thesis
  proof (cases ?pre)
    case (Returns u s2)
    then have "deref r s2 = Returns x s2" using assms(3) [of s2] by simp
    then show ?thesis
      unfolding push_back_unfold [OF assms(1,2)] Returns by simp
  qed (simp_all add: push_back_unfold [OF assms(1,2)])
qed

lemma reserve_frame:
  assumes "well_formed s this" "reserve P this n s = Returns () s'"
    and "p \<noteq> m_data (obj s this)" "buffer s p \<noteq> None"
  shows "buffer s' p = buffer s p"
proof -
  have lv: "live this s"
    using assms(1) by (auto simp: well_formed_def live_def split: option.splits)
  have fr: "p \<noteq> Ptr (length (heap s))" using assms(4) by auto
  show ?thesis
  proof (cases "n \<le> m_capacity (obj s this)")
    case True
    from reserve_noop [OF lv True, of P] assms(2) show ?thesis by simp
  next
    case False
    then have c: "m_capacity (obj s this) < n" by simp
    show ?thesis
    proof (cases "unat n \<le> avail s")
      case True
      from reserve_grow [OF assms(1) c True, of P] assms(2,3) fr show ?thesis by auto
    next
      case oom: False
      show ?thesis
      proof (cases "AllocPolicy P")
        case NewAllocator
        from reserve_oom_new [OF lv c oom NewAllocator] assms(2) show ?thesis by simp
      next
        case MallocAllocator
        show ?thesis
        proof (cases "m_size (obj s this) = 0")
          case True
          from reserve_oom_malloc_empty [OF assms(1) c oom MallocAllocator True] assms(2,3)
          show ?thesis by auto
        next
          case False
          from reserve_oom_malloc_populated [OF assms(1) c oom MallocAllocator False] assms(2)
          show ?thesis by simp
        qed
      qed
    qed
  qed
qed

text \<open>A push that does not grow reads its argument from a buffer that is still
  there, whatever it refers to.\<close>

lemma push_back_room_ref:
  assumes "valid s this" "m_size (obj s this) \<noteq> m_capacity (obj s this)"
    and "deref r s = Returns x s"
  shows "push_back P this r s = push_back P this (Object x) s"
proof -
  have lv: "live this s" and mx: "\<not> m_mutex (obj s this)"
    using assms(1) by (simp_all add: valid_live) (simp_all add: valid_def)
  show ?thesis
  proof (rule push_back_ref_eq [OF lv mx])
    fix s2
    assume "(if m_size (obj s this) = m_capacity (obj s this)
               then reserve P this (grown (m_capacity (obj s this)))
                      (upd this (\<lambda>v. v\<lparr>m_mutex := (ThreadPolicy P = MultiThreaded)\<rparr>) s)
               else Returns () (upd this (\<lambda>v. v\<lparr>m_mutex := (ThreadPolicy P = MultiThreaded)\<rparr>) s))
             = Returns () s2"
    then have "s2 = upd this (\<lambda>v. v\<lparr>m_mutex := (ThreadPolicy P = MultiThreaded)\<rparr>) s"
      using assms(2) by simp
    then show "deref r s2 = Returns x s2"
      using deref_frame [OF assms(3), of s2] by simp
  qed
qed

text \<open>A push that grows reads its argument after \<^verbatim>\<open>reserve\<close> has released the old
  buffer: an argument elsewhere is still there.\<close>

lemma push_back_grow_ref:
  assumes "valid s this" "m_size (obj s this) = m_capacity (obj s this)"
    and "deref r s = Returns x s"
    and "\<And>ref. r = Element ref \<Longrightarrow> fst ref \<noteq> m_data (obj s this)"
  shows "push_back P this r s = push_back P this (Object x) s"
proof -
  have lv: "live this s" and mx: "\<not> m_mutex (obj s this)" and w: "well_formed s this"
    using assms(1) by (simp_all add: valid_live) (simp_all add: valid_def)
  let ?s1 = "upd this (\<lambda>v. v\<lparr>m_mutex := (ThreadPolicy P = MultiThreaded)\<rparr>) s"
  have w1: "well_formed ?s1 this" using w lv by simp
  show ?thesis
  proof (rule push_back_ref_eq [OF lv mx])
    fix s2
    assume "(if m_size (obj s this) = m_capacity (obj s this)
               then reserve P this (grown (m_capacity (obj s this))) ?s1
               else Returns () ?s1) = Returns () s2"
    then have r: "reserve P this (grown (m_capacity (obj s this))) ?s1 = Returns () s2"
      using assms(2) by simp
    have "buffer s2 (fst ref) = buffer s (fst ref)" if e: "r = Element ref" for ref
    proof -
      have "buffer s (fst ref) \<noteq> None"
        using assms(3) e by (auto simp: deref_def load_def read_at_def split: option.splits)
      then have "buffer ?s1 (fst ref) \<noteq> None" by simp
      moreover have "fst ref \<noteq> m_data (obj ?s1 this)" using assms(4) [OF e] by simp
      ultimately have "buffer s2 (fst ref) = buffer ?s1 (fst ref)"
        using reserve_frame [OF w1 r] by blast
      then show ?thesis by simp
    qed
    then show "deref r s2 = Returns x s2"
      using deref_frame [OF assms(3), of s2] by simp
  qed
qed

text \<open>A push that grows with an argument in the Vector's own buffer reads it at line
  248 from the buffer that line 281 has released.\<close>

lemma push_back_aliased:
  assumes "valid s this" "m_size (obj s this) = m_capacity (obj s this)"
    and "m_capacity (obj s this) < grown (m_capacity (obj s this))"
    and "unat (grown (m_capacity (obj s this))) \<le> avail s"
  shows "push_back P this (Element (m_data (obj s this), i)) s = Undefined"
proof -
  have lv: "live this s" and mx: "\<not> m_mutex (obj s this)" and w: "well_formed s this"
    using assms(1) by (simp_all add: valid_live) (simp_all add: valid_def)
  let ?s1 = "upd this (\<lambda>v. v\<lparr>m_mutex := (ThreadPolicy P = MultiThreaded)\<rparr>) s"
  have w1: "well_formed ?s1 this" using w lv by simp
  have c1: "m_capacity (obj ?s1 this) < grown (m_capacity (obj s this))"
    and a1: "unat (grown (m_capacity (obj s this))) \<le> avail ?s1"
    using assms(3,4) by simp_all
  from reserve_grow [OF w1 c1 a1, of P]
  obtain s2 where s2: "reserve P this (grown (m_capacity (obj s this))) ?s1 = Returns () s2"
    "buffer s2 = (buffer ?s1)(m_data (obj ?s1 this) := None,
         Ptr (length (heap ?s1)) \<mapsto>
           slots ?s1 this @ replicate (unat (grown (m_capacity (obj s this))) - unat (m_size (obj ?s1 this))) None)"
    by blast
  have "m_data (obj s this) \<noteq> Ptr (length (heap s))"
    using w by (cases rule: well_formed_cases) (auto simp: obj_def)
  then have "buffer s2 (m_data (obj s this)) = None" using s2(2) by simp
  then have "deref (Element (m_data (obj s this), i)) s2 = Undefined"
    by (rule deref_released)
  then show ?thesis
    unfolding push_back_unfold [OF lv mx] using assms(2) s2(1) by simp
qed

subsection \<open>The calls push_back(10) and push_back(v[0]), step by step\<close>

lemma one_state_valid: "valid one_state 1"
  by (simp add: valid_def well_formed_def storage_ok_def one_state_def obj_def buffer_def)

lemma push_back_fresh_state_locking:
  "push_back locking_policies 1 (Object 10) (init 1 fresh_state) = Returns () one_state"
  by (simp add: push_back_def reserve_def live_def obj_def upd_def init_def lock_def unlock_def
      allocate_def deallocate_def construct_at_def buffer_def set_slot_def
      locking_policies_def fresh_state_def one_state_def)

lemma subscript_one_state: "subscript P 1 0 one_state = Returns (Ptr 0, 0) one_state"
  using subscript_ok [OF one_state_valid, of "[Some 10]" 0 P]
  by (simp add: one_state_def obj_def buffer_def)

lemma push_back_own_element_one_state:
  "push_back P 1 (Element (Ptr 0, 0)) one_state = Undefined"
  using push_back_aliased [OF one_state_valid, of P 0]
  by (simp add: one_state_def obj_def grown_def two_not_le_one word_less_nat_alt)

lemma reserve_one_state: "reserve test_policies 1 2 one_state = Returns () reserved_state"
  by (simp add: reserve_def live_def obj_def upd_def allocate_def deallocate_def construct_at_def
      buffer_def set_slot_def read_at_def destroy_at_def upt_conv_Cons test_policies_def
      one_state_def reserved_state_def two_not_le_one)
     (simp add: eval_nat_numeral)

lemma reserved_state_valid: "valid reserved_state 1"
  by (simp add: valid_def well_formed_def storage_ok_def reserved_state_def obj_def buffer_def
      word_le_nat_alt)

lemma subscript_reserved_state:
  "subscript P 1 0 reserved_state = Returns (Ptr 1, 0) reserved_state"
  using subscript_ok [OF reserved_state_valid, of "[Some 10, None]" 0 P]
  by (simp add: reserved_state_def obj_def buffer_def)

lemma push_back_own_element_reserved_state:
  "push_back test_policies 1 (Element (Ptr 1, 0)) reserved_state = Returns () aliased_state"
  by (simp add: push_back_def live_def obj_def upd_def lock_def unlock_def deref_def load_def
      construct_at_def buffer_def set_slot_def read_at_def test_policies_def
      reserved_state_def aliased_state_def)

lemma push_back_copy_one_state:
  "push_back test_policies 1 (Object 10) one_state = Returns () aliased_state"
  by (simp add: push_back_def reserve_def live_def obj_def upd_def lock_def unlock_def
      allocate_def deallocate_def construct_at_def buffer_def set_slot_def read_at_def
      destroy_at_def upt_conv_Cons test_policies_def one_state_def aliased_state_def
      two_not_le_one)
     (simp add: eval_nat_numeral)

lemma aliased_state_valid: "valid aliased_state 1"
  by (simp add: valid_def well_formed_def storage_ok_def aliased_state_def obj_def buffer_def)

lemma index_read_one_state: "index_read test_policies 1 0 one_state = Returns 10 one_state"
  using index_read_ok [OF one_state_valid, of 0 test_policies]
  by (simp add: one_state_def obj_def elements_def slots_def buffer_def)

lemma index_read_aliased_state:
  "index_read test_policies 1 0 aliased_state = Returns 10 aliased_state"
  "index_read test_policies 1 1 aliased_state = Returns 10 aliased_state"
  using index_read_ok [OF aliased_state_valid, of 0 test_policies]
    index_read_ok [OF aliased_state_valid, of 1 test_policies]
  by (simp_all add: aliased_state_def obj_def elements_def slots_def buffer_def word_less_nat_alt)

subsection \<open>Runs of push_back, continued\<close>

lemma push_all_in_order:
  assumes "Vector_default this s0 = Returns () s1"
  shows "(\<forall>s'. push_all P this (map Object vs) s1 = Returns () s' \<longrightarrow>
            unat (size' s' this) = length vs \<and>
            (\<forall>i < length vs. index_read P this (of_nat i) s' = Returns (vs ! i) s')) \<and>
         (3 * length vs \<le> avail s0 \<and> length vs \<le> 2 ^ 63 \<longrightarrow>
            (\<exists>s'. push_all P this (map Object vs) s1 = Returns () s'))"
proof -
  have s1: "s1 = init this s0" using assms by (simp add: Vector_default_def)
  have v1: "valid s1 this" and e1: "elements s1 this = []"
    and z1: "m_size (obj s1 this) = 0" "m_capacity (obj s1 this) = 0" "avail s1 = avail s0"
    unfolding s1 by (simp_all add: valid_init elements_init obj_def)
  have "unat (size' s' this) = length vs \<and>
        (\<forall>i < length vs. index_read P this (of_nat i) s' = Returns (vs ! i) s')"
    if run: "push_all P this (map Object vs) s1 = Returns () s'" for s'
  proof -
    from push_all_effect [OF v1 run] e1 z1
    have v': "valid s' this" and e': "elements s' this = vs"
      and n': "unat (m_size (obj s' this)) = length vs"
      by simp_all
    have "index_read P this (of_nat i) s' = Returns (vs ! i) s'" if "i < length vs" for i
    proof -
      have i: "i < unat (m_size (obj s' this))" using that n' by simp
      from index_read_ok [OF v' of_nat_index(1) [OF i], of P] of_nat_index(2) [OF i] e'
      show ?thesis by simp
    qed
    then show ?thesis using n' by (simp add: size'_def)
  qed
  moreover have "\<exists>s'. push_all P this (map Object vs) s1 = Returns () s'"
    if "3 * length vs \<le> avail s0" "length vs \<le> 2 ^ 63"
    by (rule push_all_succeeds [OF v1]) (use that z1 in simp_all)
  ultimately show ?thesis by blast
qed

lemma push_back_amortized:
  assumes "valid s this" "push_back P this r s = Returns () s'" "amortized s this"
  shows "amortized s' this" and "m_capacity (obj s' this) \<noteq> 0"
proof -
  note e = push_back_effect_ref [OF assms(1,2)]
  let ?n = "unat (m_size (obj s this))"
  let ?c = "m_capacity (obj s this)"
  have w: "well_formed s this" using assms(1) by (simp add: valid_def)
  have le: "m_size (obj s this) \<le> ?c"
    using w by (cases rule: well_formed_cases) (simp_all add: obj_def)
  have "amortized s' this \<and> m_capacity (obj s' this) \<noteq> 0"
  proof (cases "m_size (obj s this) = ?c")
    case True
    have lt: "?c < grown ?c" using e(5) [OF True] by simp
    have c': "m_capacity (obj s' this) = grown ?c" using e(4) True by simp
    show ?thesis
    proof (cases "?c = 0")
      case z: True
      then have "?n = 0" using True by simp
      then show ?thesis using c' z e(3) by (simp add: amortized_def grown_def)
    next
      case nz: False
      then have "?c < ?c * 2" using lt by (simp add: grown_def)
      from unat_double [OF this] have d: "unat (grown ?c) = 2 * unat ?c"
        using nz by (simp add: grown_def)
      have pos: "0 < unat ?c" using nz by (simp add: unat_gt_0)
      then have "grown ?c \<noteq> 0" using d by (auto simp: unat_eq_0)
      then show ?thesis using c' d e(3) True pos by (simp add: amortized_def)
    qed
  next
    case False
    have lt: "?n < unat ?c" using le False by (rule size_less_capacity)
    then have nz: "?c \<noteq> 0" by (auto simp: unat_eq_0)
    have c': "m_capacity (obj s' this) = ?c" using e(4) False by simp
    show ?thesis using c' nz lt e(3) assms(3) by (simp add: amortized_def)
  qed
  then show "amortized s' this" and "m_capacity (obj s' this) \<noteq> 0" by simp_all
qed

lemma push_all_amortized:
  assumes "valid s this" "push_all P this rs s = Returns () s'" "amortized s this"
  shows "valid s' this \<and> amortized s' this \<and>
         unat (m_size (obj s' this)) = unat (m_size (obj s this)) + length rs"
  using assms
proof (induction rs arbitrary: s)
  case Nil
  then show ?case by simp
next
  case (Cons r rs)
  from Cons.prems(2) obtain s1 where s1: "push_back P this r s = Returns () s1"
    "push_all P this rs s1 = Returns () s'"
    by (auto simp: and_then_Returns_iff)
  note e = push_back_effect_ref [OF Cons.prems(1) s1(1)]
  note a = push_back_amortized [OF Cons.prems(1) s1(1) Cons.prems(3)]
  from Cons.IH [OF e(1) s1(2) a(1)] e(3) show ?case by simp
qed

lemma push_back_grows:
  assumes "valid s this" "size' s this = capacity s this" "unat (capacity s this) < 2 ^ 63"
    and "(if capacity s this = 0 then 1 else 2 * unat (capacity s this)) \<le> avail s"
    and "deref r s = Returns y s" "\<not> refers_into r (m_data (obj s this))"
  shows "\<exists>s'. push_back P this r s = Returns () s' \<and>
      capacity s' this = (if capacity s this = 0 then 1 else capacity s this * 2) \<and>
      unat (capacity s' this) = (if capacity s this = 0 then 1 else 2 * unat (capacity s this))"
proof -
  let ?c = "m_capacity (obj s this)"
  let ?n = "if ?c = 0 then 1 else ?c * 2"
  have eq: "m_size (obj s this) = ?c" using assms(2) by (simp add: size'_def capacity_def)
  have ok: "?c < ?n \<and> unat ?n \<le> avail s \<and> unat ?n = (if ?c = 0 then 1 else 2 * unat ?c)"
  proof (cases "?c = 0")
    case True
    then show ?thesis using assms(4) by (simp add: capacity_def)
  next
    case False
    have "unat ?c < 2 ^ 63" using assms(3) by (simp add: capacity_def)
    from double_fits [OF this False] show ?thesis using assms(4) False by (simp add: capacity_def)
  qed
  have "fst ref \<noteq> m_data (obj s this)" if "r = Element ref" for ref
    using assms(6) that by simp
  then have same: "push_back P this r s = push_back P this (Object y) s"
    by (rule push_back_grow_ref [OF assms(1) eq assms(5)])
  from push_back_grow [OF assms(1) eq refl, of P y] ok
  obtain s' where s': "push_back P this (Object y) s = Returns () s'"
    "objects s' = (objects s)(this \<mapsto> (obj s this)\<lparr>m_data := Ptr (length (heap s)),
         m_capacity := ?n, m_size := m_size (obj s this) + 1\<rparr>)"
    by blast
  have "m_capacity (obj s' this) = ?n" using s'(2) by (simp add: obj_def)
  then show ?thesis using s'(1) ok same by (auto simp: capacity_def)
qed

lemma push_back_keeps:
  assumes "valid s this" "size' s this \<noteq> capacity s this" "deref r s = Returns y s"
  shows "\<exists>s'. push_back P this r s = Returns () s' \<and> capacity s' this = capacity s this"
proof -
  have ne: "m_size (obj s this) \<noteq> m_capacity (obj s this)"
    using assms(2) by (simp add: size'_def capacity_def)
  have same: "push_back P this r s = push_back P this (Object y) s"
    by (rule push_back_room_ref [OF assms(1) ne assms(3)])
  from push_back_room [OF assms(1) ne, of P y]
  obtain s' where s': "push_back P this (Object y) s = Returns () s'"
    "objects s' = (objects s)(this \<mapsto> (obj s this)\<lparr>m_size := m_size (obj s this) + 1\<rparr>)"
    by blast
  have "m_capacity (obj s' this) = m_capacity (obj s this)" using s'(2) by (simp add: obj_def)
  then show ?thesis using s'(1) same by (auto simp: capacity_def)
qed

lemma push_back_capacity:
  assumes "valid s this" "push_back P this r s = Returns () s'"
  shows "size' s this = capacity s this \<Longrightarrow>
         capacity s' this = (if capacity s this = 0 then 1 else capacity s this * 2) \<and>
         unat (capacity s' this) = (if capacity s this = 0 then 1 else 2 * unat (capacity s this))"
    and "size' s this \<noteq> capacity s this \<Longrightarrow> capacity s' this = capacity s this"
proof -
  note e = push_back_effect_ref [OF assms]
  show "capacity s' this = (if capacity s this = 0 then 1 else capacity s this * 2) \<and>
         unat (capacity s' this) = (if capacity s this = 0 then 1 else 2 * unat (capacity s this))"
    if "size' s this = capacity s this"
  proof -
    have eq: "m_size (obj s this) = m_capacity (obj s this)"
      using that by (simp add: size'_def capacity_def)
    have c: "capacity s' this = grown (capacity s this)"
      using e(4) eq by (simp add: capacity_def)
    have lt: "capacity s this < grown (capacity s this)"
      using e(5) [OF eq] by (simp add: capacity_def)
    show ?thesis
    proof (cases "capacity s this = 0")
      case True
      then show ?thesis using c by (simp add: grown_def)
    next
      case False
      then have "capacity s this < capacity s this * 2" using lt by (simp add: grown_def)
      from unat_double [OF this] c False show ?thesis by (simp add: grown_def)
    qed
  qed
  show "capacity s' this = capacity s this" if "size' s this \<noteq> capacity s this"
    using e(4) that by (simp add: size'_def capacity_def)
qed

lemma push_all_capacity:
  assumes "Vector_default this s0 = Returns () s1" "push_all P this rs s1 = Returns () s2"
    and "1 \<le> growth_events P this rs s1"
  shows "unat (capacity s2 this) = 2 ^ (growth_events P this rs s1 - 1)"
proof -
  have s1: "s1 = init this s0" using assms(1) by (simp add: Vector_default_def)
  have v1: "valid s1 this" and d1: "doubling_law 0 (m_capacity (obj s1 this))"
    unfolding s1 by (simp_all add: valid_init doubling_law_def obj_def)
  from growth_events_law [OF v1 assms(2) d1] assms(3)
  show ?thesis by (simp add: doubling_law_def capacity_def)
qed

lemma push_all_grows:
  assumes "Vector_default this s0 = Returns () s1" "vs \<noteq> []"
    and "3 * length vs \<le> avail s0" "length vs \<le> 2 ^ 63"
  shows "\<exists>s2. push_all P this (map Object vs) s1 = Returns () s2 \<and>
      1 \<le> growth_events P this (map Object vs) s1 \<and>
      unat (capacity s2 this) = 2 ^ (growth_events P this (map Object vs) s1 - 1) \<and>
      length vs \<le> unat (capacity s2 this) \<and> unat (capacity s2 this) < 2 * length vs"
proof -
  have s1: "s1 = init this s0" using assms(1) by (simp add: Vector_default_def)
  have v1: "valid s1 this" and a1: "amortized s1 this"
    and z1: "m_size (obj s1 this) = 0" "m_capacity (obj s1 this) = 0" "avail s1 = avail s0"
    unfolding s1 by (simp_all add: valid_init amortized_def obj_def)
  have "\<exists>s2. push_all P this (map Object vs) s1 = Returns () s2"
    by (rule push_all_succeeds [OF v1]) (use assms(3,4) z1 in simp_all)
  then obtain s2 where s2: "push_all P this (map Object vs) s1 = Returns () s2" ..
  have g: "1 \<le> growth_events P this (map Object vs) s1"
    using assms(2) z1 by (cases vs) (simp_all add: size'_def capacity_def)
  note c = push_all_capacity [OF assms(1) s2 g]
  from push_all_amortized [OF v1 s2 a1] z1
  have am: "amortized s2 this" and n: "unat (m_size (obj s2 this)) = length vs" by simp_all
  have "0 < length vs" using assms(2) by simp
  then have "m_size (obj s2 this) \<noteq> 0" using n by auto
  then have "length vs \<le> unat (capacity s2 this) \<and> unat (capacity s2 this) < 2 * length vs"
    using am n by (auto simp: amortized_def capacity_def split: if_splits)
  then show ?thesis using s2 g c by blast
qed

lemma deref_v1_state: "deref (Element (Ptr 2, 0)) v1_state = Returns 10 v1_state"
  by (simp add: deref_def load_def read_at_def buffer_def v1_state_def)

section \<open>The claims\<close>

subsection \<open>push_back of an element of the Vector itself\<close>

text \<open>
  C1. The claim: after any sequence of \<^verbatim>\<open>push_back\<close> calls on a default-constructed
  Vector, \<^verbatim>\<open>size()\<close> is their number and the indexed read at every position returns the
  value pushed there. That holds of arguments that are objects outside the buffers
  (\<open>push_all_in_order\<close> above), of elements of another buffer (\<open>push_back_grow_ref\<close>)
  and of elements of the Vector itself while the push finds room
  (\<open>push_back_room_ref\<close>). But \<^verbatim>\<open>push_back\<close> takes its argument by reference (line 239)
  and reads it at line 248, after the \<^verbatim>\<open>reserve\<close> of line 245 has released the old
  buffer (line 281): a push that grows, with an element of the Vector itself as its
  argument, reads a released buffer (\<open>push_back_aliased\<close>). On a default-constructed
  Vector, \<^verbatim>\<open>v.push_back(10); v.push_back(v[0]);\<close> is undefined behaviour, under the
  policies of either test, where the claim has size 2 and the elements 10 and 10. That
  state, \<open>aliased_state\<close>, is what the same calls reach when \<^verbatim>\<open>v.reserve(2)\<close> comes
  before the second push, so that it does not grow, and when the second push is given
  a copy of \<^verbatim>\<open>v[0]\<close> instead of the reference.
\<close>

theorem push_back_reads_released_element:
  "and_then (Vector_default 1 fresh_state) (\<lambda>_ s.
   and_then (push_back test_policies 1 (Object 10) s) (\<lambda>_ s.
   and_then (subscript test_policies 1 0 s) (\<lambda>ref s.
   push_back test_policies 1 (Element ref) s))) = Undefined \<and>
   and_then (Vector_default 1 fresh_state) (\<lambda>_ s.
   and_then (push_back locking_policies 1 (Object 10) s) (\<lambda>_ s.
   and_then (subscript locking_policies 1 0 s) (\<lambda>ref s.
   push_back locking_policies 1 (Element ref) s))) = Undefined \<and>
   and_then (Vector_default 1 fresh_state) (\<lambda>_ s.
   and_then (push_back test_policies 1 (Object 10) s) (\<lambda>_ s.
   and_then (reserve test_policies 1 2 s) (\<lambda>_ s.
   and_then (subscript test_policies 1 0 s) (\<lambda>ref s.
   push_back test_policies 1 (Element ref) s)))) = Returns () aliased_state \<and>
   and_then (Vector_default 1 fresh_state) (\<lambda>_ s.
   and_then (push_back test_policies 1 (Object 10) s) (\<lambda>_ s.
   and_then (index_read test_policies 1 0 s) (\<lambda>x s.
   push_back test_policies 1 (Object x) s))) = Returns () aliased_state \<and>
   size' aliased_state 1 = 2 \<and>
   index_read test_policies 1 0 aliased_state = Returns 10 aliased_state \<and>
   index_read test_policies 1 1 aliased_state = Returns 10 aliased_state"
  by (simp only: Vector_default_def and_then.simps push_back_fresh_state
      push_back_fresh_state_locking subscript_one_state push_back_own_element_one_state
      reserve_one_state subscript_reserved_state push_back_own_element_reserved_state
      index_read_one_state push_back_copy_one_state index_read_aliased_state simp_thms)
     (simp add: size'_def aliased_state_def obj_def)

subsection \<open>The doubling law\<close>

text \<open>
  C2. A push into a well-formed Vector, with its mutex free, that finds
  \<^verbatim>\<open>size_ == capacity_\<close> returns when the capacity is below \<open>2 ^ 63\<close>, the system can
  supply the new buffer and the argument refers to an object that is not an element of
  the Vector itself (see C1 for that one); the new capacity is then 1 if the old one
  was 0 and twice the old one otherwise (as a number, not only as a 64-bit word). A
  push that finds room returns, whatever object its argument refers to, and leaves the
  capacity alone. Whatever the argument, a push that returns has changed the capacity
  in that way and no other. Hence for a Vector that starts default-constructed, with
  capacity 0, and is mutated only by \<^verbatim>\<open>push_back\<close>: after its \<open>k\<close>-th growth event,
  \<open>k \<ge> 1\<close>, the capacity is \<open>2 ^ (k - 1)\<close>, where \<open>growth_events\<close> counts the pushes
  of the run that found \<^verbatim>\<open>size_ == capacity_\<close>. A run of \<open>N \<ge> 1\<close> pushes of objects
  outside the buffers returns when the system can supply \<open>3 * N\<close> slots and
  \<open>N \<le> 2 ^ 63\<close>; it has at least one growth event, and its final capacity is the power
  of two with \<open>N \<le> capacity < 2 * N\<close>. Neither policy matters.
\<close>

theorem capacity_doubling:
  "(valid s this \<and> size' s this = capacity s this \<and> unat (capacity s this) < 2 ^ 63 \<and>
    (if capacity s this = 0 then 1 else 2 * unat (capacity s this)) \<le> avail s \<and>
    deref r s = Returns y s \<and> \<not> refers_into r (m_data (obj s this)) \<longrightarrow>
      (\<exists>s'. push_back P this r s = Returns () s' \<and>
         capacity s' this = (if capacity s this = 0 then 1 else capacity s this * 2) \<and>
         unat (capacity s' this) = (if capacity s this = 0 then 1 else 2 * unat (capacity s this)))) \<and>
   (valid s this \<and> size' s this \<noteq> capacity s this \<and> deref r s = Returns y s \<longrightarrow>
      (\<exists>s'. push_back P this r s = Returns () s' \<and> capacity s' this = capacity s this)) \<and>
   (valid s this \<and> push_back P this r s = Returns () s' \<longrightarrow>
      (size' s this = capacity s this \<longrightarrow>
         capacity s' this = (if capacity s this = 0 then 1 else capacity s this * 2) \<and>
         unat (capacity s' this) = (if capacity s this = 0 then 1 else 2 * unat (capacity s this))) \<and>
      (size' s this \<noteq> capacity s this \<longrightarrow> capacity s' this = capacity s this)) \<and>
   (Vector_default this s0 = Returns () s1 \<and> vs \<noteq> [] \<and>
    3 * length vs \<le> avail s0 \<and> length vs \<le> 2 ^ 63 \<longrightarrow>
      (\<exists>s2. push_all P this (map Object vs) s1 = Returns () s2 \<and>
         1 \<le> growth_events P this (map Object vs) s1 \<and>
         unat (capacity s2 this) = 2 ^ (growth_events P this (map Object vs) s1 - 1) \<and>
         length vs \<le> unat (capacity s2 this) \<and> unat (capacity s2 this) < 2 * length vs)) \<and>
   (Vector_default this s0 = Returns () s1 \<and> push_all P this rs s1 = Returns () s2 \<and>
    1 \<le> growth_events P this rs s1 \<longrightarrow>
      unat (capacity s2 this) = 2 ^ (growth_events P this rs s1 - 1))"
proof (intro conjI impI; (elim conjE)?)
  assume "valid s this" "size' s this = capacity s this" "unat (capacity s this) < 2 ^ 63"
    "(if capacity s this = 0 then 1 else 2 * unat (capacity s this)) \<le> avail s"
    "deref r s = Returns y s" "\<not> refers_into r (m_data (obj s this))"
  then show "\<exists>s'. push_back P this r s = Returns () s' \<and>
         capacity s' this = (if capacity s this = 0 then 1 else capacity s this * 2) \<and>
         unat (capacity s' this) = (if capacity s this = 0 then 1 else 2 * unat (capacity s this))"
    by (rule push_back_grows)
next
  assume "valid s this" "size' s this \<noteq> capacity s this" "deref r s = Returns y s"
  then show "\<exists>s'. push_back P this r s = Returns () s' \<and> capacity s' this = capacity s this"
    by (rule push_back_keeps)
next
  assume "valid s this" "push_back P this r s = Returns () s'" "size' s this = capacity s this"
  then show "capacity s' this = (if capacity s this = 0 then 1 else capacity s this * 2)"
    using push_back_capacity(1) by blast
next
  assume "valid s this" "push_back P this r s = Returns () s'" "size' s this = capacity s this"
  then show "unat (capacity s' this) = (if capacity s this = 0 then 1 else 2 * unat (capacity s this))"
    using push_back_capacity(1) by blast
next
  assume "valid s this" "push_back P this r s = Returns () s'" "size' s this \<noteq> capacity s this"
  then show "capacity s' this = capacity s this"
    by (rule push_back_capacity(2))
next
  assume "Vector_default this s0 = Returns () s1" "vs \<noteq> []"
    "3 * length vs \<le> avail s0" "length vs \<le> 2 ^ 63"
  then show "\<exists>s2. push_all P this (map Object vs) s1 = Returns () s2 \<and>
         1 \<le> growth_events P this (map Object vs) s1 \<and>
         unat (capacity s2 this) = 2 ^ (growth_events P this (map Object vs) s1 - 1) \<and>
         length vs \<le> unat (capacity s2 this) \<and> unat (capacity s2 this) < 2 * length vs"
    by (rule push_all_grows)
next
  assume "Vector_default this s0 = Returns () s1" "push_all P this rs s1 = Returns () s2"
    "1 \<le> growth_events P this rs s1"
  then show "unat (capacity s2 this) = 2 ^ (growth_events P this rs s1 - 1)"
    by (rule push_all_capacity)
qed

theorem capacity_doubling_witness:
  "\<exists>s'. valid full_state 1 \<and> size' full_state 1 = capacity full_state 1 \<and>
     deref (Object 30) full_state = Returns 30 full_state \<and>
     push_back test_policies 1 (Object 30) full_state = Returns () v1_state \<and>
     capacity v1_state 1 = capacity full_state 1 * 2 \<and>
     unat (capacity v1_state 1) = 2 * unat (capacity full_state 1) \<and>
     valid v1_state 1 \<and> size' v1_state 1 \<noteq> capacity v1_state 1 \<and>
     deref (Element (Ptr 2, 0)) v1_state = Returns 10 v1_state \<and>
     push_back test_policies 1 (Element (Ptr 2, 0)) v1_state = Returns () s' \<and>
     capacity s' 1 = capacity v1_state 1 \<and>
     push_all test_policies 1 [Object 10, Object 20, Object 30] (init 1 fresh_state)
       = Returns () v1_state \<and>
     growth_events test_policies 1 [Object 10, Object 20, Object (30 :: int)] (init 1 fresh_state) = 3 \<and>
     unat (capacity v1_state 1) = 2 ^ 2 \<and>
     3 \<le> unat (capacity v1_state 1) \<and> unat (capacity v1_state 1) < 2 * 3"
proof -
  have ne: "size' v1_state 1 \<noteq> capacity v1_state 1"
    by (simp add: v1_state_def size'_def capacity_def obj_def)
  have c: "Vector_default 1 fresh_state = Returns () (init 1 fresh_state)"
    by (simp add: Vector_default_def)
  have eq: "size' full_state 1 = capacity full_state 1" "capacity full_state 1 \<noteq> 0"
    "unat (capacity full_state 1) < 2 ^ 63"
    "(if capacity full_state 1 = 0 then 1 else 2 * unat (capacity full_state 1)) \<le> avail full_state"
    by (simp_all add: full_state_def size'_def capacity_def obj_def)
  have d: "deref (Object 30) full_state = Returns 30 full_state"
    "\<not> refers_into (Object (30 :: int)) (m_data (obj full_state 1))"
    by simp_all
  have mem: "3 * length [10, 20, 30 :: int] \<le> avail fresh_state" "length [10, 20, 30 :: int] \<le> 2 ^ 63"
    "[10, 20, 30 :: int] \<noteq> []"
    by (simp_all add: fresh_state_def)
  have run: "push_all test_policies 1 (map Object [10, 20, 30]) (init 1 fresh_state) = Returns () v1_state"
    using test_run_reaches_v1_state by simp
  have ge: "growth_events test_policies 1 (map Object [10, 20, 30 :: int]) (init 1 fresh_state) = 3"
    using growth_events_test by simp
  note a = capacity_doubling [of full_state 1 "Object 30" 30 test_policies v1_state fresh_state
      "init 1 fresh_state" "[10, 20, 30]" "map Object [10, 20, 30]" v1_state]
  from a full_state_valid eq d
  obtain t where t: "push_back test_policies 1 (Object 30) full_state = Returns () t"
    "capacity t 1 = (if capacity full_state 1 = 0 then 1 else capacity full_state 1 * 2)"
    "unat (capacity t 1) = (if capacity full_state 1 = 0 then 1 else 2 * unat (capacity full_state 1))"
    by blast
  from a full_state_valid eq(1) t(1)
  have "capacity v1_state 1 = (if capacity full_state 1 = 0 then 1 else capacity full_state 1 * 2) \<and>
    unat (capacity v1_state 1) = (if capacity full_state 1 = 0 then 1 else 2 * unat (capacity full_state 1))"
    unfolding push_back_full_state by blast
  then have a1: "capacity v1_state 1 = capacity full_state 1 * 2"
    "unat (capacity v1_state 1) = 2 * unat (capacity full_state 1)"
    unfolding if_not_P [OF eq(2)] by blast+
  have g1: "1 \<le> growth_events test_policies 1 (map Object [10, 20, 30 :: int]) (init 1 fresh_state)"
    unfolding ge by simp
  from a c run g1
  have "unat (capacity v1_state 1) =
      2 ^ (growth_events test_policies 1 (map Object [10, 20, 30 :: int]) (init 1 fresh_state) - 1)"
    by blast
  then have a2: "unat (capacity v1_state 1) = 2 ^ 2" unfolding ge by simp
  from a c mem
  obtain s2 where s2:
    "push_all test_policies 1 (map Object [10, 20, 30]) (init 1 fresh_state) = Returns () s2"
    "length [10, 20, 30 :: int] \<le> unat (capacity s2 1)"
    "unat (capacity s2 1) < 2 * length [10, 20, 30 :: int]"
    by blast
  have "s2 = v1_state" using s2(1) unfolding run by simp
  then have a3: "3 \<le> unat (capacity v1_state 1)" "unat (capacity v1_state 1) < 2 * 3"
    using s2(2,3) by simp_all
  note b = capacity_doubling [of v1_state 1 "Element (Ptr 2, 0)" 10 test_policies _ fresh_state
      "init 1 fresh_state" "[10, 20, 30]" "map Object [10, 20, 30]" v1_state]
  from b v1_state_valid ne deref_v1_state
  obtain s' where s': "push_back test_policies 1 (Element (Ptr 2, 0)) v1_state = Returns () s'"
    "capacity s' 1 = capacity v1_state 1"
    by blast
  show ?thesis
    using full_state_valid eq(1) d(1) push_back_full_state a1 v1_state_valid ne deref_v1_state
      s' test_run_reaches_v1_state growth_events_test a2 a3
    by blast
qed

subsection \<open>reserve\<close>

text \<open>
  C3. For every Vector with well-formed storage and every \<open>n\<close>: if \<open>n \<le> capacity()\<close>
  then \<^verbatim>\<open>reserve(n)\<close> returns with the whole state unchanged; if \<open>n > capacity()\<close> and
  \<^verbatim>\<open>reserve(n)\<close> returns, then \<^verbatim>\<open>capacity()\<close> is exactly \<open>n\<close>, \<^verbatim>\<open>size()\<close> is
  unchanged and the elements are the same values at the same indices; and it does
  return when the system can supply \<open>n\<close> slots.
\<close>

theorem reserve_spec:
  assumes "well_formed s this"
  shows "(n \<le> capacity s this \<longrightarrow> reserve P this n s = Returns () s) \<and>
         (capacity s this < n \<longrightarrow>
            (\<forall>s'. reserve P this n s = Returns () s' \<longrightarrow>
               capacity s' this = n \<and> size' s' this = size' s this \<and>
               elements s' this = elements s this) \<and>
            (unat n \<le> avail s \<longrightarrow> (\<exists>s'. reserve P this n s = Returns () s')))"
proof -
  have lv: "live this s" using assms by (auto simp: well_formed_def live_def split: option.splits)
  have ov: "objects s this = Some (obj s this)" using lv by (auto simp: live_def obj_def)
  have noop: "reserve P this n s = Returns () s" if "n \<le> capacity s this"
    using reserve_noop [OF lv, of n P] that by (simp add: capacity_def)
  have grow: "capacity s' this = n \<and> size' s' this = size' s this \<and>
               elements s' this = elements s this"
    if lt: "capacity s this < n" and r: "reserve P this n s = Returns () s'" for s'
  proof -
    have c: "m_capacity (obj s this) < n" using lt by (simp add: capacity_def)
    show ?thesis
    proof (cases "unat n \<le> avail s")
      case True
      from reserve_grow [OF assms c True, of P] r
      have s': "objects s' = (objects s)(this \<mapsto>
           (obj s this)\<lparr>m_data := Ptr (length (heap s)), m_capacity := n\<rparr>)"
        "buffer s' = (buffer s)(m_data (obj s this) := None, Ptr (length (heap s)) \<mapsto>
           slots s this @ replicate (unat n - unat (m_size (obj s this))) None)"
        by auto
      have len: "length (slots s this) = unat (m_size (obj s this))"
        using well_formed_slots [OF assms] by simp
      have "slots s' this = slots s this"
        using s' len by (simp add: slots_def obj_def)
      then show ?thesis using s' by (simp add: capacity_def size'_def elements_def obj_def)
    next
      case False
      show ?thesis
      proof (cases "AllocPolicy P")
        case NewAllocator
        from reserve_oom_new [OF lv c False NewAllocator] r show ?thesis by simp
      next
        case MallocAllocator
        show ?thesis
        proof (cases "m_size (obj s this) = 0")
          case nz: False
          from reserve_oom_malloc_populated [OF assms c False MallocAllocator nz] r
          show ?thesis by simp
        next
          case z: True
          from reserve_oom_malloc_empty [OF assms c False MallocAllocator z] r
          have s': "objects s' = (objects s)(this \<mapsto>
              (obj s this)\<lparr>m_data := nullptr, m_capacity := n\<rparr>)"
            by auto
          then show ?thesis using z
            by (simp add: capacity_def size'_def elements_def slots_def obj_def
                split: option.splits)
        qed
      qed
    qed
  qed
  have ok: "\<exists>s'. reserve P this n s = Returns () s'"
    if "capacity s this < n" "unat n \<le> avail s"
    using reserve_grow [OF assms, of n P] that by (auto simp: capacity_def)
  from noop grow ok show ?thesis by blast
qed

theorem reserve_spec_witness:
  "well_formed v1_state 1 \<and>
   reserve test_policies 1 4 v1_state = Returns () v1_state \<and>
   (\<exists>s'. reserve test_policies 1 10 v1_state = Returns () s' \<and>
      capacity s' 1 = 10 \<and> size' s' 1 = 3 \<and> elements s' 1 = [10, 20, 30])"
proof -
  have w: "well_formed v1_state 1" using v1_state_valid by (simp add: valid_def)
  have c: "capacity v1_state 1 = 4" "size' v1_state 1 = 3" "avail v1_state = 60"
    "elements v1_state 1 = [10, 20, 30]"
    by (simp_all add: v1_state_def capacity_def size'_def obj_def elements_def slots_def
        buffer_def)
  note t4 = reserve_spec [OF w, of 4 test_policies]
  note t10 = reserve_spec [OF w, of 10 test_policies]
  have "(4 :: size_t) \<le> capacity v1_state 1" "capacity v1_state 1 < (10 :: size_t)"
    "unat (10 :: size_t) \<le> avail v1_state"
    using c by simp_all
  with t4 t10 w c show ?thesis by (auto simp del: One_nat_def)
qed

subsection \<open>Move construction and move assignment\<close>

text \<open>
  C4. For every well-formed Vector \<open>A\<close> and every other object \<open>B\<close>: the move
  constructor \<^verbatim>\<open>B(std::move(A))\<close> returns with \<open>B\<close> holding the size, the capacity and
  the very buffer pointer of \<open>A\<close>, hence the same elements at the same indices, while
  the heap is untouched (no element is copied, constructed or destructed), and \<open>A\<close> is
  left with size 0, capacity 0 and the null pointer. The move assignment
  \<^verbatim>\<open>B = std::move(A)\<close> to a well-formed \<open>B\<close> that owns a buffer of its own does the
  same; the only change of the heap is the release of the former buffer of \<open>B\<close>, and no
  buffer is allocated.
\<close>

theorem move_transfers_buffer:
  assumes "valid s A" "B \<noteq> A"
  shows "(\<exists>s'. Vector_move P B A s = Returns () s' \<and>
            size' s' B = size' s A \<and> capacity s' B = capacity s A \<and>
            m_data (obj s' B) = m_data (obj s A) \<and> elements s' B = elements s A \<and>
            heap s' = heap s \<and> avail s' = avail s \<and>
            size' s' A = 0 \<and> capacity s' A = 0 \<and> m_data (obj s' A) = nullptr) \<and>
         (valid s B \<and> (m_data (obj s B) \<noteq> m_data (obj s A) \<or> m_data (obj s B) = nullptr) \<longrightarrow>
          (\<exists>s'. move_assign P B A s = Returns () s' \<and>
            size' s' B = size' s A \<and> capacity s' B = capacity s A \<and>
            m_data (obj s' B) = m_data (obj s A) \<and> elements s' B = elements s A \<and>
            buffer s' = (buffer s)(m_data (obj s B) := None) \<and>
            length (heap s') = length (heap s) \<and>
            size' s' A = 0 \<and> capacity s' A = 0 \<and> m_data (obj s' A) = nullptr))"
proof -
  let ?s' = "s\<lparr>objects := (objects s)(B \<mapsto> obj s A, A \<mapsto> moved_from)\<rparr>"
  have o: "obj ?s' B = obj s A" "obj ?s' A = moved_from"
    using assms(2) by (simp_all add: obj_def)
  have "elements ?s' B = elements s A"
    by (rule elements_eqI) (simp_all add: o)
  then have ctor: "\<exists>s'. Vector_move P B A s = Returns () s' \<and>
            size' s' B = size' s A \<and> capacity s' B = capacity s A \<and>
            m_data (obj s' B) = m_data (obj s A) \<and> elements s' B = elements s A \<and>
            heap s' = heap s \<and> avail s' = avail s \<and>
            size' s' A = 0 \<and> capacity s' A = 0 \<and> m_data (obj s' A) = nullptr"
    using Vector_move_ok [OF assms, of P] o by (simp add: size'_def capacity_def)
  have assign: "\<exists>s'. move_assign P B A s = Returns () s' \<and>
            size' s' B = size' s A \<and> capacity s' B = capacity s A \<and>
            m_data (obj s' B) = m_data (obj s A) \<and> elements s' B = elements s A \<and>
            buffer s' = (buffer s)(m_data (obj s B) := None) \<and>
            length (heap s') = length (heap s) \<and>
            size' s' A = 0 \<and> capacity s' A = 0 \<and> m_data (obj s' A) = nullptr"
    if vB: "valid s B"
      and dj: "m_data (obj s B) \<noteq> m_data (obj s A) \<or> m_data (obj s B) = nullptr"
  proof -
    from move_assign_ok [OF assms(1) vB assms(2) dj, of P]
    obtain s' where s': "move_assign P B A s = Returns () s'"
      "objects s' = (objects s)(B \<mapsto> obj s A, A \<mapsto> moved_from)"
      "length (heap s') = length (heap s)"
      "buffer s' = (buffer s)(m_data (obj s B) := None)"
      by blast
    have o': "obj s' B = obj s A" "obj s' A = moved_from"
      using s'(2) assms(2) by (simp_all add: obj_def)
    have "buffer s' (m_data (obj s A)) = buffer s (m_data (obj s A))"
      using s'(4) dj by auto
    then have "elements s' B = elements s A"
      by (intro elements_eqI) (simp_all add: o')
    then show ?thesis using s' o' by (simp add: size'_def capacity_def)
  qed
  from ctor assign show ?thesis by blast
qed

theorem move_transfers_buffer_witness:
  "valid v1_state 1 \<and> valid pair_state 1 \<and> valid pair_state 2 \<and>
   (\<exists>s'. Vector_move test_policies 3 1 v1_state = Returns () s' \<and>
      size' s' 3 = 3 \<and> capacity s' 3 = 4 \<and> m_data (obj s' 3) = Ptr 2 \<and>
      elements s' 3 = [10, 20, 30] \<and> heap s' = heap v1_state \<and>
      size' s' 1 = 0 \<and> capacity s' 1 = 0 \<and> m_data (obj s' 1) = nullptr) \<and>
   (\<exists>s'. move_assign test_policies 2 1 pair_state = Returns () s' \<and>
      size' s' 2 = 3 \<and> capacity s' 2 = 4 \<and> m_data (obj s' 2) = Ptr 2 \<and>
      elements s' 2 = [10, 20, 30] \<and> buffer s' (Ptr 3) = None \<and>
      size' s' 1 = 0 \<and> capacity s' 1 = 0 \<and> m_data (obj s' 1) = nullptr)"
proof -
  have ne: "(3 :: nat) \<noteq> 1" "(2 :: nat) \<noteq> 1" by simp_all
  have dj: "m_data (obj pair_state 2) \<noteq> m_data (obj pair_state 1) \<or>
     m_data (obj pair_state 2) = nullptr"
    using pair_state_facts(3,9) by simp
  from move_transfers_buffer [OF v1_state_valid ne(1), of test_policies]
  have a: "\<exists>s'. Vector_move test_policies 3 1 v1_state = Returns () s' \<and>
      size' s' 3 = 3 \<and> capacity s' 3 = 4 \<and> m_data (obj s' 3) = Ptr 2 \<and>
      elements s' 3 = [10, 20, 30] \<and> heap s' = heap v1_state \<and>
      size' s' 1 = 0 \<and> capacity s' 1 = 0 \<and> m_data (obj s' 1) = nullptr"
    using v1_state_facts by auto
  from move_transfers_buffer [OF pair_state_valid(1) ne(2), of test_policies]
    pair_state_valid(2) dj pair_state_facts
  have b: "\<exists>s'. move_assign test_policies 2 1 pair_state = Returns () s' \<and>
      size' s' 2 = 3 \<and> capacity s' 2 = 4 \<and> m_data (obj s' 2) = Ptr 2 \<and>
      elements s' 2 = [10, 20, 30] \<and> buffer s' (Ptr 3) = None \<and>
      size' s' 1 = 0 \<and> capacity s' 1 = 0 \<and> m_data (obj s' 1) = nullptr"
    by auto
  from a b v1_state_valid pair_state_valid show ?thesis by blast
qed

subsection \<open>Copy construction and copy assignment\<close>

text \<open>
  C5. For every populated, well-formed Vector \<open>A\<close> and every other object \<open>B\<close>:
  whenever the copy constructor \<^verbatim>\<open>B(A)\<close> returns, \<open>B\<close> has the size, the capacity and
  the elements of \<open>A\<close> by value, in a buffer of the capacity of \<open>A\<close> that is distinct
  from the buffer of \<open>A\<close> and was no buffer before (it is fresh), and after every
  sequence of mutations of \<open>B\<close> alone (\<^verbatim>\<open>push_back\<close> of any argument, \<^verbatim>\<open>pop_back\<close>, indexed writes)
  that returns, the size, the capacity and the elements of \<open>A\<close> are what they were. The
  same holds of the copy assignment \<^verbatim>\<open>B = A\<close> to a well-formed \<open>B\<close> that owns a buffer
  of its own. Both return when the system can supply the capacity of \<open>A\<close> (the
  assignment releases the buffer of \<open>B\<close> first).
\<close>

theorem copy_is_independent:
  assumes "valid s A" "size' s A \<noteq> 0" "B \<noteq> A"
  shows "(\<forall>s1. Vector_copy P B A s = Returns () s1 \<longrightarrow>
            size' s1 B = size' s A \<and> capacity s1 B = capacity s A \<and>
            elements s1 B = elements s A \<and> valid s1 B \<and>
            m_data (obj s1 B) \<noteq> m_data (obj s A) \<and> buffer s (m_data (obj s1 B)) = None \<and>
            (\<exists>buf. buffer s1 (m_data (obj s1 B)) = Some buf \<and> length buf = unat (capacity s A)) \<and>
            (\<forall>ms s2. mutate_all P B ms s1 = Returns () s2 \<longrightarrow>
               size' s2 A = size' s A \<and> capacity s2 A = capacity s A \<and>
               elements s2 A = elements s A)) \<and>
         (unat (capacity s A) \<le> avail s \<longrightarrow> (\<exists>s1. Vector_copy P B A s = Returns () s1)) \<and>
         (valid s B \<and> (m_data (obj s B) \<noteq> m_data (obj s A) \<or> m_data (obj s B) = nullptr) \<longrightarrow>
            (\<forall>s1. copy_assign P B A s = Returns () s1 \<longrightarrow>
               size' s1 B = size' s A \<and> capacity s1 B = capacity s A \<and>
               elements s1 B = elements s A \<and> valid s1 B \<and>
               m_data (obj s1 B) \<noteq> m_data (obj s A) \<and> buffer s (m_data (obj s1 B)) = None \<and>
               (\<exists>buf. buffer s1 (m_data (obj s1 B)) = Some buf \<and>
                  length buf = unat (capacity s A)) \<and>
               (\<forall>ms s2. mutate_all P B ms s1 = Returns () s2 \<longrightarrow>
                  size' s2 A = size' s A \<and> capacity s2 A = capacity s A \<and>
                  elements s2 A = elements s A)) \<and>
            (unat (capacity s A) \<le> avail s + unat (capacity s B) \<longrightarrow>
               (\<exists>s1. copy_assign P B A s = Returns () s1)))"
proof -
  have ne: "m_size (obj s A) \<noteq> 0" using assms(2) by (simp add: size'_def)
  have w: "well_formed s A" using assms(1) by (simp add: valid_def)
  from w have cap: "m_capacity (obj s A) \<noteq> 0" and bA: "buffer s (m_data (obj s A)) \<noteq> None"
    using ne by (cases rule: well_formed_cases; auto simp: obj_def)+
  let ?L = "Ptr (length (heap s))"
  have neq: "?L \<noteq> m_data (obj s A)" using bA by (rule fresh_neq)
  have ctor: "size' s1 B = size' s A \<and> capacity s1 B = capacity s A \<and>
            elements s1 B = elements s A \<and> valid s1 B \<and>
            m_data (obj s1 B) \<noteq> m_data (obj s A) \<and> buffer s (m_data (obj s1 B)) = None \<and>
            (\<exists>buf. buffer s1 (m_data (obj s1 B)) = Some buf \<and> length buf = unat (capacity s A)) \<and>
            (\<forall>ms s2. mutate_all P B ms s1 = Returns () s2 \<longrightarrow>
               size' s2 A = size' s A \<and> capacity s2 A = capacity s A \<and>
               elements s2 A = elements s A)"
    if r: "Vector_copy P B A s = Returns () s1" for s1
  proof -
    have fits: "unat (m_capacity (obj s A)) \<le> avail s"
      using Vector_copy_stuck [OF assms(1,3) ne, of P s1] r by blast
    from Vector_copy_ok [OF assms(1,3) cap fits, of P] r
    have s1: "objects s1 = (objects s)(B \<mapsto> (obj s A)\<lparr>m_data := ?L\<rparr>)"
      "buffer s1 = (buffer s)(?L \<mapsto> slots s A @
         replicate (unat (m_capacity (obj s A)) - unat (m_size (obj s A))) None)"
      by auto
    show ?thesis
      by (rule copy_post [OF assms(1) ne assms(3) s1(1)]) (use s1(2) neq in simp_all)
  qed
  have ctor_ok: "\<exists>s1. Vector_copy P B A s = Returns () s1" if "unat (capacity s A) \<le> avail s"
    using Vector_copy_ok [OF assms(1,3) cap, of P] that by (auto simp: capacity_def)
  have assign: "size' s1 B = size' s A \<and> capacity s1 B = capacity s A \<and>
               elements s1 B = elements s A \<and> valid s1 B \<and>
               m_data (obj s1 B) \<noteq> m_data (obj s A) \<and> buffer s (m_data (obj s1 B)) = None \<and>
               (\<exists>buf. buffer s1 (m_data (obj s1 B)) = Some buf \<and>
                  length buf = unat (capacity s A)) \<and>
               (\<forall>ms s2. mutate_all P B ms s1 = Returns () s2 \<longrightarrow>
                  size' s2 A = size' s A \<and> capacity s2 A = capacity s A \<and>
                  elements s2 A = elements s A)"
    if vB: "valid s B"
      and dj: "m_data (obj s B) \<noteq> m_data (obj s A) \<or> m_data (obj s B) = nullptr"
      and r: "copy_assign P B A s = Returns () s1" for s1
  proof -
    note c = copy_assign_cases [OF assms(1) vB assms(3) dj cap, of P]
    have fits: "unat (m_capacity (obj s A)) \<le> avail s + unat (m_capacity (obj s B))"
      using c(2) [of s1] ne r by blast
    from c(1) [OF fits] r
    have s1: "objects s1 = (objects s)(B \<mapsto> (obj s A)\<lparr>m_data := ?L\<rparr>)"
      "buffer s1 = (buffer s)(m_data (obj s B) := None, ?L \<mapsto> slots s A @
         replicate (unat (m_capacity (obj s A)) - unat (m_size (obj s A))) None)"
      by auto
    show ?thesis
      by (rule copy_post [OF assms(1) ne assms(3) s1(1)]) (use s1(2) neq dj in auto)
  qed
  have assign_ok: "\<exists>s1. copy_assign P B A s = Returns () s1"
    if "valid s B" "m_data (obj s B) \<noteq> m_data (obj s A) \<or> m_data (obj s B) = nullptr"
      "unat (capacity s A) \<le> avail s + unat (capacity s B)"
    using copy_assign_cases(1) [OF assms(1) that(1) assms(3) that(2) cap, of P] that(3)
    by (auto simp: capacity_def)
  from ctor ctor_ok assign assign_ok show ?thesis by blast
qed

theorem copy_is_independent_witness:
  "valid v1_state 1 \<and> valid pair_state 1 \<and> valid pair_state 2 \<and>
   (\<exists>s1 s2. Vector_copy test_policies 2 1 v1_state = Returns () s1 \<and>
      elements s1 2 = [10, 20, 30] \<and> capacity s1 2 = 4 \<and>
      m_data (obj s1 2) \<noteq> Ptr 2 \<and>
      mutate_all test_policies 2 [PushBack (Object 40)] s1 = Returns () s2 \<and>
      size' s2 1 = 3 \<and> capacity s2 1 = 4 \<and> elements s2 1 = [10, 20, 30]) \<and>
   (\<exists>s1 s2. copy_assign test_policies 2 1 pair_state = Returns () s1 \<and>
      elements s1 2 = [10, 20, 30] \<and> capacity s1 2 = 4 \<and>
      m_data (obj s1 2) \<noteq> Ptr 2 \<and>
      mutate_all test_policies 2 [PopBack] s1 = Returns () s2 \<and>
      size' s2 1 = 3 \<and> capacity s2 1 = 4 \<and> elements s2 1 = [10, 20, 30])"
proof -
  have ne: "(2 :: nat) \<noteq> 1" by simp
  have nz: "size' v1_state 1 \<noteq> 0" "size' pair_state 1 \<noteq> 0"
    using v1_state_facts(1) pair_state_facts(1) by simp_all
  have dj: "m_data (obj pair_state 2) \<noteq> m_data (obj pair_state 1) \<or>
     m_data (obj pair_state 2) = nullptr"
    using pair_state_facts(3,9) by simp
  note t1 = copy_is_independent [OF v1_state_valid nz(1) ne, of test_policies]
  note t2 = copy_is_independent [OF pair_state_valid(1) nz(2) ne, of test_policies]
  have "unat (capacity v1_state 1) \<le> avail v1_state" using v1_state_facts by simp
  with t1 obtain s1 where s1: "Vector_copy test_policies 2 1 v1_state = Returns () s1" by blast
  with t1 have p1: "size' s1 2 = size' v1_state 1" "capacity s1 2 = capacity v1_state 1"
    "elements s1 2 = elements v1_state 1" "valid s1 2"
    "m_data (obj s1 2) \<noteq> m_data (obj v1_state 1)"
    and f1: "\<forall>ms s2. mutate_all test_policies 2 ms s1 = Returns () s2 \<longrightarrow>
      size' s2 1 = size' v1_state 1 \<and> capacity s2 1 = capacity v1_state 1 \<and>
      elements s2 1 = elements v1_state 1"
    by blast+
  have "m_size (obj s1 2) \<noteq> m_capacity (obj s1 2)"
    using p1(1,2) v1_state_facts(1,2) by (simp add: size'_def capacity_def)
  from push_back_room [OF p1(4) this, of test_policies 40]
  obtain s2 where s2: "mutate_all test_policies 2 [PushBack (Object 40)] s1 = Returns () s2"
    by auto
  have a: "\<exists>s1 s2. Vector_copy test_policies 2 1 v1_state = Returns () s1 \<and>
      elements s1 2 = [10, 20, 30] \<and> capacity s1 2 = 4 \<and>
      m_data (obj s1 2) \<noteq> Ptr 2 \<and>
      mutate_all test_policies 2 [PushBack (Object 40)] s1 = Returns () s2 \<and>
      size' s2 1 = 3 \<and> capacity s2 1 = 4 \<and> elements s2 1 = [10, 20, 30]"
    using s1 s2 p1 f1 [rule_format, OF s2] v1_state_facts by auto
  have "unat (capacity pair_state 1) \<le> avail pair_state + unat (capacity pair_state 2)"
    using pair_state_facts by simp
  with t2 pair_state_valid(2) dj
  obtain r1 where r1: "copy_assign test_policies 2 1 pair_state = Returns () r1" by blast
  with t2 pair_state_valid(2) dj
  have q1: "size' r1 2 = size' pair_state 1" "capacity r1 2 = capacity pair_state 1"
    "elements r1 2 = elements pair_state 1" "valid r1 2"
    "m_data (obj r1 2) \<noteq> m_data (obj pair_state 1)"
    and g1: "\<forall>ms s2. mutate_all test_policies 2 ms r1 = Returns () s2 \<longrightarrow>
      size' s2 1 = size' pair_state 1 \<and> capacity s2 1 = capacity pair_state 1 \<and>
      elements s2 1 = elements pair_state 1"
    by blast+
  have "m_size (obj r1 2) \<noteq> 0"
    using q1(1) pair_state_facts(1) by (simp add: size'_def)
  from pop_back_nonempty [OF q1(4) this, of test_policies]
  obtain r2 where r2: "mutate_all test_policies 2 [PopBack] r1 = Returns () r2"
    by auto
  have b: "\<exists>s1 s2. copy_assign test_policies 2 1 pair_state = Returns () s1 \<and>
      elements s1 2 = [10, 20, 30] \<and> capacity s1 2 = 4 \<and>
      m_data (obj s1 2) \<noteq> Ptr 2 \<and>
      mutate_all test_policies 2 [PopBack] s1 = Returns () s2 \<and>
      size' s2 1 = 3 \<and> capacity s2 1 = 4 \<and> elements s2 1 = [10, 20, 30]"
    using r1 r2 q1 g1 [rule_format, OF r2] pair_state_facts by auto
  from a b v1_state_valid pair_state_valid show ?thesis by blast
qed

subsection \<open>Allocation failure under MallocAllocator\<close>

text \<open>
  C6. The claim: an allocation failure during a growth by \<^verbatim>\<open>reserve\<close> or
  \<^verbatim>\<open>push_back\<close> makes the operation fail with size, capacity, buffer and elements
  as before. With \<^verbatim>\<open>NewAllocator\<close> that is what happens (\<open>reserve_oom_new\<close>,
  \<open>push_back_oom_new\<close> above: the exception leaves them untouched). With
  \<^verbatim>\<open>MallocAllocator\<close> the null pointer of \<^verbatim>\<open>std::malloc\<close> is never tested (lines 15
  and 272): on a default-constructed Vector with no memory left, \<^verbatim>\<open>reserve(4)\<close> returns
  normally and has set \<^verbatim>\<open>capacity_\<close> to 4 with \<^verbatim>\<open>data_\<close> null, and \<^verbatim>\<open>push_back(10)\<close>
  constructs the element through the null pointer.
\<close>

theorem malloc_failure_is_not_reported:
  "reserve test_policies 1 4 (init 1 exhausted_state) =
     Returns () (upd 1 (\<lambda>v. v\<lparr>m_data := nullptr, m_capacity := 4\<rparr>) (init 1 exhausted_state)) \<and>
   capacity (init 1 exhausted_state) 1 = 0 \<and>
   capacity (upd 1 (\<lambda>v. v\<lparr>m_data := nullptr, m_capacity := 4\<rparr>) (init 1 exhausted_state)) 1 = 4 \<and>
   push_back test_policies 1 (Object 10) (init 1 exhausted_state) = Undefined"
  by (simp add: reserve_def push_back_def allocate_def lock_def unlock_def construct_at_def
      test_policies_def exhausted_state_def capacity_def)

subsection \<open>pop_back\<close>

text \<open>
  C7. For every well-formed Vector whose mutex is free: \<^verbatim>\<open>pop_back()\<close> with
  \<open>size() > 0\<close> returns, having destructed exactly the element at index
  \<open>size() - 1\<close> (that slot of the buffer is raw afterwards, every other slot and every
  other buffer is as before), with \<^verbatim>\<open>size()\<close> one less, the capacity, the buffer pointer,
  the other objects and the free memory unchanged; the elements are the former ones
  without the last. \<^verbatim>\<open>pop_back()\<close> with \<open>size() = 0\<close> returns normally, reporting no
  error, with the entire state unchanged.
\<close>

theorem pop_back_spec:
  assumes "valid s this"
  shows "(size' s this = 0 \<longrightarrow> pop_back P this s = Returns () s) \<and>
         (0 < size' s this \<longrightarrow>
            (\<exists>s'. pop_back P this s = Returns () s' \<and>
               unat (size' s' this) = unat (size' s this) - 1 \<and>
               capacity s' this = capacity s this \<and>
               m_data (obj s' this) = m_data (obj s this) \<and>
               buffer s' = (buffer s)(m_data (obj s this) \<mapsto>
                  (storage s this)[unat (size' s this) - 1 := None]) \<and>
               elements s' this = butlast (elements s this) \<and>
               (\<forall>that. that \<noteq> this \<longrightarrow> objects s' that = objects s that) \<and>
               avail s' = avail s \<and> length (heap s') = length (heap s)))"
proof -
  have "pop_back P this s = Returns () s" if "size' s this = 0"
    using pop_back_empty [OF assms, of P] that by (simp add: size'_def)
  moreover have "\<exists>s'. pop_back P this s = Returns () s' \<and>
               unat (size' s' this) = unat (size' s this) - 1 \<and>
               capacity s' this = capacity s this \<and>
               m_data (obj s' this) = m_data (obj s this) \<and>
               buffer s' = (buffer s)(m_data (obj s this) \<mapsto>
                  (storage s this)[unat (size' s this) - 1 := None]) \<and>
               elements s' this = butlast (elements s this) \<and>
               (\<forall>that. that \<noteq> this \<longrightarrow> objects s' that = objects s that) \<and>
               avail s' = avail s \<and> length (heap s') = length (heap s)"
    if "0 < size' s this"
  proof -
    have "m_size (obj s this) \<noteq> 0" using that by (simp add: size'_def word_greater_zero_iff)
    from pop_back_effect [OF assms this, of P] show ?thesis
      by (auto simp: size'_def capacity_def obj_def)
  qed
  ultimately show ?thesis by blast
qed

theorem pop_back_spec_witness:
  "valid v1_state 1 \<and> valid (init 1 fresh_state) 1 \<and>
   pop_back test_policies 1 (init 1 fresh_state) = Returns () (init 1 fresh_state) \<and>
   (\<exists>s'. pop_back test_policies 1 v1_state = Returns () s' \<and>
      unat (size' s' 1) = 2 \<and> capacity s' 1 = 4 \<and> elements s' 1 = [10, 20] \<and>
      buffer s' (Ptr 2) = Some [Some 10, Some 20, None, None])"
proof -
  have c: "size' v1_state 1 = 3" "capacity v1_state 1 = 4" "m_data (obj v1_state 1) = Ptr 2"
    "elements v1_state 1 = [10, 20, 30]" "storage v1_state 1 = [Some 10, Some 20, Some 30, None]"
    by (simp_all add: v1_state_def capacity_def size'_def obj_def elements_def slots_def
        storage_def buffer_def)
  have z: "size' (init 1 fresh_state) 1 = 0" by (simp add: size'_def obj_def)
  have pos: "0 < size' v1_state 1" using c(1) by simp
  from pop_back_spec [OF valid_init, of 1 fresh_state test_policies] z
  have e: "pop_back test_policies 1 (init 1 fresh_state) = Returns () (init 1 fresh_state)"
    by blast
  from pop_back_spec [OF v1_state_valid, of test_policies] pos
  obtain s' where s': "pop_back test_policies 1 v1_state = Returns () s'"
    "unat (size' s' 1) = unat (size' v1_state 1) - 1"
    "capacity s' 1 = capacity v1_state 1"
    "buffer s' = (buffer v1_state)(m_data (obj v1_state 1) \<mapsto>
        (storage v1_state 1)[unat (size' v1_state 1) - 1 := None])"
    "elements s' 1 = butlast (elements v1_state 1)"
    by blast
  have "[Some 10, Some 20, Some 30, None][2 := None] = [Some 10, Some (20 :: int), None, None]"
    by (simp add: numeral_2_eq_2)
  with s' c have "unat (size' s' 1) = 2" "capacity s' 1 = 4" "elements s' 1 = [10, 20]"
    "buffer s' (Ptr 2) = Some [Some 10, Some 20, None, None]"
    by simp_all
  with s'(1) e v1_state_valid valid_init [of 1 fresh_state] show ?thesis by blast
qed

subsection \<open>The state invariant after a failed malloc\<close>

text \<open>
  C8. The claim: every public operation preserves \<open>0 \<le> size \<le> capacity\<close> and
  ``the buffer pointer is null if and only if the capacity is 0''. \<open>state_invariant\<close> is
  that invariant; every well-formed Vector has it (\<open>valid_state_invariant\<close>), and the
  operations keep Vectors well-formed where their allocations succeed
  (\<open>push_back_effect\<close>, \<open>pop_back_effect\<close>, \<open>mutate_frame\<close>, \<open>copy_post\<close>). But on a
  default-constructed Vector with no memory left, \<^verbatim>\<open>reserve(4)\<close> under
  \<^verbatim>\<open>MallocAllocator\<close> returns normally with capacity 4 and a null buffer pointer: the
  invariant held before the call and does not hold after it.
\<close>

theorem malloc_failure_breaks_invariant:
  "valid (init 1 exhausted_state) 1 \<and> state_invariant (init 1 exhausted_state) 1 \<and>
   reserve test_policies 1 4 (init 1 exhausted_state) =
     Returns () (upd 1 (\<lambda>v. v\<lparr>m_data := nullptr, m_capacity := 4\<rparr>) (init 1 exhausted_state)) \<and>
   \<not> state_invariant
       (upd 1 (\<lambda>v. v\<lparr>m_data := nullptr, m_capacity := 4\<rparr>) (init 1 exhausted_state)) 1"
  by (simp add: valid_init valid_state_invariant reserve_def allocate_def
      test_policies_def exhausted_state_def state_invariant_def capacity_def size'_def)

subsection \<open>Lock order of the copy assignment\<close>

text \<open>
  C9. The claim: the two mutexes of a cross-instance copy are taken in an order fixed
  by the identity of the instances, whichever is the destination. The code locks
  \<^verbatim>\<open>mutex_\<close> of \<^verbatim>\<open>this\<close> first and of \<^verbatim>\<open>other\<close> second (lines 162-163), so the order
  follows the destination. With the Vectors 1 and 2 of \<open>pair_state\<close> under
  \<^verbatim>\<open>MultiThreaded\<close>: a first thread starts \<^verbatim>\<open>v1 = v2\<close> and takes the mutex of 1 (line
  162); a second thread runs \<^verbatim>\<open>v2 = v1\<close>, takes the mutex of 2 and blocks on the mutex of
  1; the first thread goes on to line 163 and blocks on the mutex of 2. Neither can
  proceed. The last conjunct is the mirror image: \<^verbatim>\<open>v1 = v2\<close> run while the mutex of 2 is
  held blocks on 2, holding 1.
\<close>

theorem lock_order_follows_destination:
  "lock locking_policies 1 pair_state =
     Returns () (upd 1 (\<lambda>v. v\<lparr>m_mutex := True\<rparr>) pair_state) \<and>
   copy_assign locking_policies 2 1 (upd 1 (\<lambda>v. v\<lparr>m_mutex := True\<rparr>) pair_state) =
     Blocks 1 (upd 2 (\<lambda>v. v\<lparr>m_mutex := True\<rparr>) (upd 1 (\<lambda>v. v\<lparr>m_mutex := True\<rparr>) pair_state)) \<and>
   lock locking_policies 2
     (upd 2 (\<lambda>v. v\<lparr>m_mutex := True\<rparr>) (upd 1 (\<lambda>v. v\<lparr>m_mutex := True\<rparr>) pair_state)) =
     Blocks 2 (upd 2 (\<lambda>v. v\<lparr>m_mutex := True\<rparr>) (upd 1 (\<lambda>v. v\<lparr>m_mutex := True\<rparr>) pair_state)) \<and>
   copy_assign locking_policies 1 2 (upd 2 (\<lambda>v. v\<lparr>m_mutex := True\<rparr>) pair_state) =
     Blocks 2 (upd 1 (\<lambda>v. v\<lparr>m_mutex := True\<rparr>) (upd 2 (\<lambda>v. v\<lparr>m_mutex := True\<rparr>) pair_state))"
  by (simp add: copy_assign_def lock_def locking_policies_def pair_state_def live_def obj_def)

subsection \<open>Self-assignment\<close>

text \<open>
  C10. Self-assignment is the identity: for every Vector \<open>v\<close>, policy and state, both
  copy assignment \<^verbatim>\<open>v = v\<close> and move assignment \<^verbatim>\<open>v = std::move(v)\<close> return with the
  whole state as it was: size, capacity, buffer pointer and every element, no element
  destructed and no buffer released. The guard \<^verbatim>\<open>this != &other\<close> of lines 161 and 212
  skips the body.
\<close>

theorem self_assignment_identity:
  "copy_assign P v v s = Returns () s \<and> move_assign P v v s = Returns () s"
  by (simp add: copy_assign_def move_assign_def)

theorem self_assignment_identity_witness:
  "copy_assign test_policies 1 1 v1_state = Returns () v1_state \<and>
   move_assign test_policies 1 1 v1_state = Returns () v1_state"
  using self_assignment_identity [of test_policies 1 v1_state] by simp

end
